theory Spec2Isabelle
  imports Complex_Main
begin

section \<open>Data model (srt\_parser.py)\<close>

text \<open>
  The dataclass \<open>Subtitle\<close>: Python integers are unbounded, so the fields are \<open>int\<close>.
  The field \<open>text\<close> is named \<open>sub_text\<close> here (\<open>text\<close> is a keyword) and is a
  \<open>string\<close>: the model covers text whose code points are below 256 (the
  values of \<open>char\<close>).
\<close>

record subtitle =
  index :: int
  start_ms :: int
  end_ms :: int
  sub_text :: string

text \<open>The exceptions the modelled code can raise.\<close>

datatype py_error = ValueError | IndexError | OverflowError

text \<open>
  Python list indexing \<open>xs[i]\<close>: a negative index counts from the end, an index out of
  range raises IndexError.
\<close>

definition py_index :: "'a list \<Rightarrow> int \<Rightarrow> py_error + 'a" where
  "py_index xs i =
     (if 0 \<le> i \<and> i < int (length xs) then Inr (xs ! nat i)
      else if i < 0 \<and> - int (length xs) \<le> i then Inr (xs ! nat (int (length xs) + i))
      else Inl IndexError)"

section \<open>Interval lookup (get\_subtitle\_at\_time)\<close>

text \<open>
  The \<open>while left <= right\<close> loop of \<open>get_subtitle_at_time\<close>, with \<open>left\<close> and
  \<open>right\<close> as the Python integers they are (\<open>right\<close> can reach \<open>-1\<close>); \<open>//\<close> is
  floor division, as \<open>div\<close> on \<open>int\<close>.
\<close>

function bsearch_loop :: "subtitle list \<Rightarrow> int \<Rightarrow> int \<Rightarrow> int \<Rightarrow> py_error + subtitle option" where
  "bsearch_loop subtitles current_ms left right =
     (if left \<le> right then
        (case py_index subtitles ((left + right) div 2) of
           Inl e \<Rightarrow> Inl e
         | Inr sub \<Rightarrow>
             if start_ms sub \<le> current_ms \<and> current_ms \<le> end_ms sub then Inr (Some sub)
             else if current_ms < start_ms sub
               then bsearch_loop subtitles current_ms left ((left + right) div 2 - 1)
               else bsearch_loop subtitles current_ms ((left + right) div 2 + 1) right)
      else Inr None)"
  by pat_completeness auto
termination
  by (relation "measure (\<lambda>(subtitles, current_ms, left, right). nat (right - left + 1))") auto

declare bsearch_loop.simps [simp del]

definition get_subtitle_at_time :: "subtitle list \<Rightarrow> int \<Rightarrow> py_error + subtitle option" where
  "get_subtitle_at_time subtitles current_ms =
     (if subtitles = [] then Inr None
      else bsearch_loop subtitles current_ms 0 (int (length subtitles) - 1))"

section \<open>Parsing (parse\_srt\_file)\<close>

text \<open>
  Whitespace as \<open>str.strip()\<close>, \<open>int()\<close> and the regular expression class \<open>\s\<close> see
  it, and the decimal digits of \<open>\d\<close> and \<open>int()\<close>, for code points below 256. A source
  with a code point from 256 on is outside the model; in particular the byte-order mark
  U+FEFF cannot occur, so that \<open>content.lstrip('\ufeff')\<close> is the identity here.
\<close>

definition is_space :: "char \<Rightarrow> bool" where
  "is_space c = (c \<in> set [CHR 0x09, CHR 0x0A, CHR 0x0B, CHR 0x0C, CHR 0x0D, CHR 0x1C, CHR 0x1D,
                           CHR 0x1E, CHR 0x1F, CHR 0x20, CHR 0x85, CHR 0xA0])"

definition is_digit :: "char \<Rightarrow> bool" where
  "is_digit c = (c \<in> set ''0123456789'')"

definition strip :: "string \<Rightarrow> string" where
  "strip s = rev (dropWhile is_space (rev (dropWhile is_space s)))"

text \<open>
  \<open>re.split(r'\n\s*\n', s)\<close>: a separator starts at a newline that is followed, after
  any whitespace, by another newline; \<open>\s*\<close> is greedy, so the separator ends at the last
  newline of the whitespace run. \<open>match_blank\<close> gives what follows the separator when one
  starts at the head of the string.
\<close>

definition match_blank :: "string \<Rightarrow> string option" where
  "match_blank s =
     (case s of
        [] \<Rightarrow> None
      | c # rest \<Rightarrow>
          if c = CHR 0x0A \<and> CHR 0x0A \<in> set (takeWhile is_space rest)
          then Some (rev (takeWhile (\<lambda>x. x \<noteq> CHR 0x0A) (rev (takeWhile is_space rest)))
                     @ dropWhile is_space rest)
          else None)"

function re_split_blank :: "string \<Rightarrow> string \<Rightarrow> string list" where
  "re_split_blank piece [] = [piece]"
| "re_split_blank piece (c # cs) =
     (case match_blank (c # cs) of
        Some rest \<Rightarrow> piece # re_split_blank [] rest
      | None \<Rightarrow> re_split_blank (piece @ [c]) cs)"
  by pat_completeness auto
termination
proof (relation "measure (\<lambda>(piece, s). length s)")
  show "wf (measure (\<lambda>(piece, s). length s))" by simp
next
  fix piece :: string and c cs rest
  assume "match_blank (c # cs) = Some rest"
  then have "rest = rev (takeWhile (\<lambda>x. x \<noteq> CHR 0x0A) (rev (takeWhile is_space cs)))
                     @ dropWhile is_space cs"
    by (simp add: match_blank_def split: if_splits)
  moreover have "length (takeWhile (\<lambda>x. x \<noteq> CHR 0x0A) (rev (takeWhile is_space cs)))
      \<le> length (takeWhile is_space cs)"
    using length_takeWhile_le[of "\<lambda>x. x \<noteq> CHR 0x0A" "rev (takeWhile is_space cs)"] by simp
  moreover have "length (takeWhile is_space cs) + length (dropWhile is_space cs) = length cs"
    by (metis length_append takeWhile_dropWhile_id)
  ultimately show "((([]::string), rest), (piece, c # cs)) \<in> measure (\<lambda>(piece, s). length s)"
    by simp
next
  fix piece :: string and c :: char and cs :: string
  show "((piece @ [c], cs), (piece, c # cs)) \<in> measure (\<lambda>(piece, s). length s)" by simp
qed

text \<open>\<open>block.split('\n')\<close> and \<open>'\n'.join(lines)\<close>.\<close>

fun split_on_nl :: "string \<Rightarrow> string \<Rightarrow> string list" where
  "split_on_nl line [] = [line]"
| "split_on_nl line (c # cs) =
     (if c = CHR 0x0A then line # split_on_nl [] cs else split_on_nl (line @ [c]) cs)"

definition split_nl :: "string \<Rightarrow> string list" where
  "split_nl s = split_on_nl [] s"

fun join_nl :: "string list \<Rightarrow> string" where
  "join_nl [] = []"
| "join_nl [l] = l"
| "join_nl (l # ls) = l @ [CHR 0x0A] @ join_nl ls"

text \<open>
  \<open>int(s)\<close> on a string: surrounding whitespace is dropped, one sign is allowed, the
  digits may be grouped by single underscores, and a literal of more than 4300 digits is
  refused (the default conversion limit of CPython from 3.11 on). Every failure is a
  ValueError.
\<close>

fun valid_digits :: "string \<Rightarrow> bool" where
  "valid_digits [] = False"
| "valid_digits [c] = is_digit c"
| "valid_digits (c # d # cs) =
     (is_digit c \<and> (if d = CHR ''_'' then valid_digits cs else valid_digits (d # cs)))"

fun dec_value :: "int \<Rightarrow> string \<Rightarrow> int" where
  "dec_value acc [] = acc"
| "dec_value acc (c # cs) =
     (if c = CHR ''_'' then dec_value acc cs
      else dec_value (acc * 10 + (of_char c - 48)) cs)"

definition int_max_str_digits :: nat where
  "int_max_str_digits = 4300"

definition digits_value :: "string \<Rightarrow> py_error + int" where
  "digits_value ds =
     (if valid_digits ds \<and> length (filter is_digit ds) \<le> int_max_str_digits
      then Inr (dec_value 0 ds) else Inl ValueError)"

definition py_int :: "string \<Rightarrow> py_error + int" where
  "py_int s =
     (case strip s of
        [] \<Rightarrow> Inl ValueError
      | c # cs \<Rightarrow>
          if c = CHR ''-'' then (case digits_value cs of Inl e \<Rightarrow> Inl e | Inr n \<Rightarrow> Inr (- n))
          else if c = CHR ''+'' then digits_value cs
          else digits_value (c # cs))"

text \<open>
  \<open>re.match\<close> of a sequence of one-character classes at the head of a string: the matched
  text and the rest. The timestamp pattern \<open>\d{1,2}:\d{2}:\d{2}[,\.]\d{3}\<close> tries two
  hour digits first and then one, as the greedy \<open>{1,2}\<close> does.
\<close>

fun match_classes :: "(char \<Rightarrow> bool) list \<Rightarrow> string \<Rightarrow> (string \<times> string) option" where
  "match_classes [] s = Some ([], s)"
| "match_classes (p # ps) [] = None"
| "match_classes (p # ps) (c # cs) =
     (if p c then (case match_classes ps cs of
                     None \<Rightarrow> None
                   | Some (m, rest) \<Rightarrow> Some (c # m, rest))
      else None)"

definition stamp_tail :: "(char \<Rightarrow> bool) list \<Rightarrow> (char \<Rightarrow> bool) list" where
  "stamp_tail sep =
     [(\<lambda>c. c = CHR '':''), is_digit, is_digit, (\<lambda>c. c = CHR '':''), is_digit, is_digit]
     @ sep @ [is_digit, is_digit, is_digit]"

definition match_stamp :: "(char \<Rightarrow> bool) list \<Rightarrow> string \<Rightarrow> (string \<times> string) option" where
  "match_stamp sep s =
     (case match_classes ([is_digit, is_digit] @ stamp_tail sep) s of
        Some r \<Rightarrow> Some r
      | None \<Rightarrow> match_classes ([is_digit] @ stamp_tail sep) s)"

definition match_literal :: "string \<Rightarrow> string \<Rightarrow> string option" where
  "match_literal lit s = (if take (length lit) s = lit then Some (drop (length lit) s) else None)"

text \<open>
  The pattern of the timestamp line, two timestamps around \<open>\s*-->\s*\<close>, matched at the
  head of the line; the result is the pair of groups.
\<close>

definition match_timestamp_line :: "string \<Rightarrow> (string \<times> string) option" where
  "match_timestamp_line s =
     (case match_stamp [\<lambda>c. c = CHR '','' \<or> c = CHR ''.''] s of
        None \<Rightarrow> None
      | Some (g1, r1) \<Rightarrow>
          (case match_literal ''-->'' (dropWhile is_space r1) of
             None \<Rightarrow> None
           | Some r2 \<Rightarrow>
               (case match_stamp [\<lambda>c. c = CHR '','' \<or> c = CHR ''.''] (dropWhile is_space r2) of
                  None \<Rightarrow> None
                | Some (g2, r3) \<Rightarrow> Some (g1, g2))))"

text \<open>
  \<open>timestamp_to_ms\<close>: commas become periods, the pattern is matched again, and the four
  groups go through \<open>int\<close>. With \<open>h\<close> hour digits the groups are at the fixed offsets
  used below.
\<close>

definition timestamp_to_ms :: "string \<Rightarrow> py_error + int" where
  "timestamp_to_ms timestamp =
     (case match_stamp [\<lambda>c. c = CHR ''.'']
             (map (\<lambda>c. if c = CHR '','' then CHR ''.'' else c) timestamp) of
        None \<Rightarrow> Inl ValueError
      | Some (m, rest) \<Rightarrow>
          (let h = length m - 10 in
           (case py_int (take h m) of Inl e \<Rightarrow> Inl e | Inr hours \<Rightarrow>
           (case py_int (take 2 (drop (h + 1) m)) of Inl e \<Rightarrow> Inl e | Inr minutes \<Rightarrow>
           (case py_int (take 2 (drop (h + 4) m)) of Inl e \<Rightarrow> Inl e | Inr seconds \<Rightarrow>
           (case py_int (take 3 (drop (h + 7) m)) of Inl e \<Rightarrow> Inl e | Inr milliseconds \<Rightarrow>
             Inr (hours * 3600000 + minutes * 60000 + seconds * 1000 + milliseconds)))))))"

text \<open>
  \<open>re.sub(r'<[^>]+>', '', text)\<close>: a match starts at \<open><\<close>, takes at least one character
  other than \<open>>\<close> and ends at the first \<open>>\<close>; matches are removed from left to right.
\<close>

definition match_tag :: "string \<Rightarrow> string option" where
  "match_tag s =
     (case s of
        [] \<Rightarrow> None
      | c # cs \<Rightarrow>
          if c = CHR ''<'' \<and> takeWhile (\<lambda>x. x \<noteq> CHR ''>'') cs \<noteq> []
               \<and> dropWhile (\<lambda>x. x \<noteq> CHR ''>'') cs \<noteq> []
          then Some (tl (dropWhile (\<lambda>x. x \<noteq> CHR ''>'') cs))
          else None)"

function re_sub_tags :: "string \<Rightarrow> string" where
  "re_sub_tags [] = []"
| "re_sub_tags (c # cs) =
     (case match_tag (c # cs) of
        Some rest \<Rightarrow> re_sub_tags rest
      | None \<Rightarrow> c # re_sub_tags cs)"
  by pat_completeness auto
termination
proof (relation "measure length")
  show "wf (measure (length :: string \<Rightarrow> nat))" by simp
next
  fix c :: char and cs rest :: string
  assume "match_tag (c # cs) = Some rest"
  then have "rest = tl (dropWhile (\<lambda>x. x \<noteq> CHR ''>'') cs)"
    by (simp add: match_tag_def split: if_splits)
  moreover have "length (dropWhile (\<lambda>x. x \<noteq> CHR ''>'') cs) \<le> length cs"
    by (rule length_dropWhile_le)
  ultimately show "(rest, c # cs) \<in> measure length" by simp
next
  fix c :: char and cs :: string
  show "(cs, c # cs) \<in> measure length" by simp
qed

text \<open>
  The body of the \<open>try\<close> statement for one block of at least three lines: an exception,
  \<open>None\<close> where the source takes \<open>continue\<close> on a timestamp line that does not match, or
  the cue.
\<close>

definition try_block :: "string list \<Rightarrow> py_error + subtitle option" where
  "try_block lines =
     (case py_index lines 0 of Inl e \<Rightarrow> Inl e | Inr line0 \<Rightarrow>
     (case py_int (strip line0) of Inl e \<Rightarrow> Inl e | Inr idx \<Rightarrow>
     (case py_index lines 1 of Inl e \<Rightarrow> Inl e | Inr line1 \<Rightarrow>
     (case match_timestamp_line (strip line1) of
        None \<Rightarrow> Inr None
      | Some (start_time, end_time) \<Rightarrow>
          (case timestamp_to_ms start_time of Inl e \<Rightarrow> Inl e | Inr s \<Rightarrow>
          (case timestamp_to_ms end_time of Inl e \<Rightarrow> Inl e | Inr e \<Rightarrow>
             Inr (Some \<lparr>index = idx, start_ms = s, end_ms = e,
                        sub_text = re_sub_tags (strip (join_nl (drop 2 lines)))\<rparr>)))))))"

text \<open>
  The loop over the blocks. \<open>except (ValueError, IndexError)\<close> skips the block; any other
  exception would leave the function.
\<close>

fun parse_blocks :: "string list \<Rightarrow> subtitle list \<Rightarrow> py_error + subtitle list" where
  "parse_blocks [] subs = Inr subs"
| "parse_blocks (block # blocks) subs =
     (if strip block = [] then parse_blocks blocks subs
      else if length (split_nl (strip block)) < 3 then parse_blocks blocks subs
      else (case try_block (split_nl (strip block)) of
              Inl ValueError \<Rightarrow> parse_blocks blocks subs
            | Inl IndexError \<Rightarrow> parse_blocks blocks subs
            | Inl OverflowError \<Rightarrow> Inl OverflowError
            | Inr None \<Rightarrow> parse_blocks blocks subs
            | Inr (Some sub) \<Rightarrow> parse_blocks blocks (subs @ [sub])))"

text \<open>
  The part of \<open>parse_srt_file\<close> after decoding: blocks of the stripped content, the loop,
  and the stable sort by start time.
\<close>

definition parse_content :: "string \<Rightarrow> py_error + subtitle list" where
  "parse_content content =
     (case parse_blocks (re_split_blank [] (strip content)) [] of
        Inl e \<Rightarrow> Inl e
      | Inr subs \<Rightarrow> Inr (sort_key start_ms subs))"

text \<open>
  Reading the file: \<open>read_as enc\<close> is the text of the file decoded as \<open>enc\<close>, or \<open>None\<close>
  where \<open>open(...).read()\<close> raises UnicodeDecodeError. The candidates are tried in the
  order of the source; the first that decodes wins. Errors of the file system and unknown
  encoding names are outside the model.
\<close>

fun first_decodable :: "(string \<Rightarrow> string option) \<Rightarrow> string list \<Rightarrow> string option" where
  "first_decodable read_as [] = None"
| "first_decodable read_as (enc # encs) =
     (case read_as enc of Some content \<Rightarrow> Some content | None \<Rightarrow> first_decodable read_as encs)"

definition parse_srt_file :: "(string \<Rightarrow> string option) \<Rightarrow> string \<Rightarrow> py_error + subtitle list" where
  "parse_srt_file read_as encoding =
     (case first_decodable read_as [encoding, ''utf-8-sig'', ''latin-1'', ''cp1252''] of
        None \<Rightarrow> Inl ValueError
      | Some content \<Rightarrow> parse_content content)"

section \<open>Blocks and tags as the specification describes them\<close>

text \<open>
  The specification's conversion of a timestamp \<open>H:MM:SS,mmm\<close> (one or two hour digits):
  \<open>h * 3600000 + m * 60000 + s * 1000 + ms\<close>, the fields read as decimal numbers.
\<close>

definition decimal :: "string \<Rightarrow> int" where
  "decimal ds = foldl (\<lambda>n c. 10 * n + (of_char c - 48)) 0 ds"

definition stamp_ms :: "string \<Rightarrow> int" where
  "stamp_ms g =
     (let h = length g - 10
      in decimal (take h g) * 3600000 + decimal (take 2 (drop (h + 1) g)) * 60000
         + decimal (take 2 (drop (h + 4) g)) * 1000 + decimal (take 3 (drop (h + 7) g)))"

text \<open>
  A block is well-formed when, after stripping, it has an index line that \<open>int\<close> accepts,
  a second line that matches the timestamp-range pattern, and at least one more line;
  \<open>block_cue\<close> is the cue the specification assigns to such a block.
\<close>

definition well_formed :: "string \<Rightarrow> bool" where
  "well_formed block =
     (let lines = split_nl (strip block)
      in 3 \<le> length lines
         \<and> (case py_int (strip (lines ! 0)) of Inl e \<Rightarrow> False | Inr n \<Rightarrow> True)
         \<and> (case match_timestamp_line (strip (lines ! 1)) of None \<Rightarrow> False | Some g \<Rightarrow> True))"

definition block_cue :: "string \<Rightarrow> subtitle" where
  "block_cue block =
     (let lines = split_nl (strip block)
      in \<lparr>index = projr (py_int (strip (lines ! 0))),
          start_ms = stamp_ms (fst (the (match_timestamp_line (strip (lines ! 1))))),
          end_ms = stamp_ms (snd (the (match_timestamp_line (strip (lines ! 1))))),
          sub_text = re_sub_tags (strip (join_nl (drop 2 lines)))\<rparr>)"

text \<open>
  A text has a tag when some position of it starts with \<open><\<close>, a non-empty name free of
  \<open>>\<close>, and \<open>>\<close> (lemma \<open>has_tag_iff\<close>).
\<close>

fun has_tag :: "string \<Rightarrow> bool" where
  "has_tag [] = False"
| "has_tag (c # cs) = (case match_tag (c # cs) of Some rest \<Rightarrow> True | None \<Rightarrow> has_tag cs)"

text \<open>
  Sources for the scenarios: the sample of Scenario A, Scenario E (a two-line block
  between two well-formed blocks), a source of malformed blocks only (two lines, an index
  line that is no integer, a timestamp line that does not match), a source whose blocks
  are out of order, and a file that decodes as latin-1 only.
\<close>

definition sample_srt :: string where
  "sample_srt =
     ''1'' @ [CHR 0x0A] @ ''00:00:01,000 --> 00:00:04,000'' @ [CHR 0x0A] @ ''Hello''
     @ [CHR 0x0A, CHR 0x0A] @
     ''2'' @ [CHR 0x0A] @ ''00:00:05,500 --> 00:00:08,200'' @ [CHR 0x0A] @ ''Second''
       @ [CHR 0x0A] @ ''line''
     @ [CHR 0x0A, CHR 0x0A] @
     ''3'' @ [CHR 0x0A] @ ''00:00:10,000 --> 00:00:12,500'' @ [CHR 0x0A]
       @ ''<i>italic stripped</i>'' @ [CHR 0x0A]"



definition reordered_srt :: string where
  "reordered_srt =
     ''2'' @ [CHR 0x0A] @ ''00:00:05,500 --> 00:00:08,200'' @ [CHR 0x0A] @ ''Second''
     @ [CHR 0x0A, CHR 0x0A] @
     ''1'' @ [CHR 0x0A] @ ''00:00:01,000 --> 00:00:04,000'' @ [CHR 0x0A] @ ''Hello''
     @ [CHR 0x0A]"

definition latin1_only :: "string \<Rightarrow> string \<Rightarrow> string option" where
  "latin1_only content enc = (if enc = ''latin-1'' then Some content else None)"

section \<open>Floating-point numbers (float)\<close>

text \<open>
  A Python \<open>float\<close> is an IEEE 754 binary64 number. The finite ones are taken as the real
  numbers they denote (the sign of zero plays no part in the modelled code); the two
  infinities arise from overflow. No operation of the modelled code yields a NaN, since
  the clock reading \<open>time.time()\<close> is finite.
\<close>

datatype pyfloat = Finite real | PosInf | NegInf

text \<open>
  Rounding to the nearest binary64 number, ties to even. \<open>ulp_exp a\<close> is the exponent of
  the unit in the last place at magnitude \<open>a\<close>: the \<open>e\<close> with
  \<open>2 powi (e + 52) \<le> a < 2 powi (e + 53)\<close>, searched downward from 971 (the largest finite
  binade) and not below -1074 (the subnormal numbers). A real number is rounded to the
  nearest multiple of that unit; a result of magnitude \<open>2 ^ 1024\<close> or more is an infinity.
\<close>

definition round_half_even :: "real \<Rightarrow> int" where
  "round_half_even x =
     (if x - of_int \<lfloor>x\<rfloor> < 1 / 2 then \<lfloor>x\<rfloor>
      else if 1 / 2 < x - of_int \<lfloor>x\<rfloor> then \<lfloor>x\<rfloor> + 1
      else if even \<lfloor>x\<rfloor> then \<lfloor>x\<rfloor> else \<lfloor>x\<rfloor> + 1)"

fun ulp_search :: "nat \<Rightarrow> real \<Rightarrow> int \<Rightarrow> int" where
  "ulp_search 0 a e = e"
| "ulp_search (Suc n) a e = (if 2 powi (e + 52) \<le> a then e else ulp_search n a (e - 1))"

definition ulp_exp :: "real \<Rightarrow> int" where
  "ulp_exp a = ulp_search 2045 a 971"

definition overflow_bound :: real where
  "overflow_bound = 2 ^ 1024"

definition round_double :: "real \<Rightarrow> pyfloat" where
  "round_double x =
     (let y = of_int (round_half_even (x / 2 powi ulp_exp \<bar>x\<bar>)) * 2 powi ulp_exp \<bar>x\<bar>
      in if overflow_bound \<le> y then PosInf
         else if y \<le> - overflow_bound then NegInf else Finite y)"

text \<open>
  The float operations of the engine. \<open>float_of_int\<close> is the conversion of an \<open>int\<close>
  operand, which raises OverflowError when the integer is too large; \<open>ms_to_seconds n\<close>
  is \<open>n / 1000.0\<close>; \<open>float_sub a x\<close> is \<open>a - x\<close> for a finite \<open>a\<close>; \<open>float_times c x\<close> is
  \<open>x * c\<close> for a positive finite \<open>c\<close>; \<open>py_int_of_float\<close> is \<open>int(x)\<close>, truncation toward
  zero, an OverflowError on an infinity.
\<close>

definition float_of_int :: "int \<Rightarrow> py_error + real" where
  "float_of_int n =
     (case round_double (of_int n) of
        Finite y \<Rightarrow> Inr y
      | PosInf \<Rightarrow> Inl OverflowError
      | NegInf \<Rightarrow> Inl OverflowError)"

definition ms_to_seconds :: "int \<Rightarrow> py_error + pyfloat" where
  "ms_to_seconds n =
     (case float_of_int n of
        Inl e \<Rightarrow> Inl e
      | Inr a \<Rightarrow> Inr (round_double (a / 1000)))"

definition float_sub :: "real \<Rightarrow> pyfloat \<Rightarrow> pyfloat" where
  "float_sub a x =
     (case x of
        Finite b \<Rightarrow> round_double (a - b)
      | PosInf \<Rightarrow> NegInf
      | NegInf \<Rightarrow> PosInf)"

definition float_times :: "real \<Rightarrow> pyfloat \<Rightarrow> pyfloat" where
  "float_times c x =
     (case x of
        Finite a \<Rightarrow> round_double (a * c)
      | PosInf \<Rightarrow> PosInf
      | NegInf \<Rightarrow> NegInf)"

definition py_int_of_float :: "pyfloat \<Rightarrow> py_error + int" where
  "py_int_of_float x =
     (case x of
        Finite a \<Rightarrow> Inr (if 0 \<le> a then \<lfloor>a\<rfloor> else \<lceil>a\<rceil>)
      | PosInf \<Rightarrow> Inl OverflowError
      | NegInf \<Rightarrow> Inl OverflowError)"

section \<open>Sync engine (sync\_engine.py)\<close>

text \<open>
  The fields of \<open>SubtitleSync\<close>. \<open>_start_time\<close> is \<open>None\<close> or a float. Every method that
  reads \<open>time.time()\<close> takes the reading, a finite float, as the argument \<open>now\<close>.
\<close>

record engine =
  subtitles :: "subtitle list"
  start_time :: "pyfloat option"
  offset_ms :: int
  is_running :: bool
  pause_elapsed :: int
  current_subtitle :: "subtitle option"

definition init :: "subtitle list \<Rightarrow> engine" where
  "init subs = \<lparr>subtitles = subs, start_time = None, offset_ms = 0, is_running = False,
                 pause_elapsed = 0, current_subtitle = None\<rparr>"

text \<open>
  A method that changes the engine returns the exception it raised, if any, and the
  state it left: \<open>set_playback_time\<close> has stored the time when the division raises,
  \<open>start\<close> and \<open>pause\<close> have changed nothing.
\<close>

definition set_playback_time :: "engine \<Rightarrow> int \<Rightarrow> real \<Rightarrow> py_error option \<times> engine" where
  "set_playback_time s time_ms now =
     (let s1 = s\<lparr>pause_elapsed := time_ms\<rparr>
      in if is_running s1 then
           (case ms_to_seconds time_ms of
              Inl e \<Rightarrow> (Some e, s1)
            | Inr q \<Rightarrow> (None, s1\<lparr>start_time := Some (float_sub now q)\<rparr>))
         else (None, s1))"

definition start :: "engine \<Rightarrow> real \<Rightarrow> py_error option \<times> engine" where
  "start s now =
     (if is_running s then (None, s)
      else (case start_time s of
              None \<Rightarrow>
                (None, s\<lparr>start_time := Some (Finite now), pause_elapsed := 0,
                          is_running := True\<rparr>)
            | Some st \<Rightarrow>
                (case ms_to_seconds (pause_elapsed s) of
                   Inl e \<Rightarrow> (Some e, s)
                 | Inr q \<Rightarrow>
                     (None, s\<lparr>start_time := Some (float_sub now q), is_running := True\<rparr>))))"

definition get_elapsed_ms :: "engine \<Rightarrow> real \<Rightarrow> py_error + int" where
  "get_elapsed_ms s now =
     (case start_time s of
        None \<Rightarrow> Inr 0
      | Some st \<Rightarrow>
          if \<not> is_running s then Inr (pause_elapsed s)
          else py_int_of_float (float_times 1000 (float_sub now st)))"

definition pause :: "engine \<Rightarrow> real \<Rightarrow> py_error option \<times> engine" where
  "pause s now =
     (if \<not> is_running s then (None, s)
      else (case get_elapsed_ms s now of
              Inl e \<Rightarrow> (Some e, s)
            | Inr ms \<Rightarrow> (None, s\<lparr>pause_elapsed := ms, is_running := False\<rparr>)))"

definition toggle :: "engine \<Rightarrow> real \<Rightarrow> py_error option \<times> engine" where
  "toggle s now = (if is_running s then pause s now else start s now)"

definition reset :: "engine \<Rightarrow> engine" where
  "reset s = s\<lparr>start_time := None, pause_elapsed := 0, is_running := False,
               current_subtitle := None\<rparr>"

definition adjust_offset :: "engine \<Rightarrow> int \<Rightarrow> engine" where
  "adjust_offset s delta_ms = s\<lparr>offset_ms := offset_ms s + delta_ms\<rparr>"

definition set_offset :: "engine \<Rightarrow> int \<Rightarrow> engine" where
  "set_offset s v = s\<lparr>offset_ms := v\<rparr>"

definition get_adjusted_time_ms :: "engine \<Rightarrow> real \<Rightarrow> py_error + int" where
  "get_adjusted_time_ms s now =
     (case get_elapsed_ms s now of
        Inl e \<Rightarrow> Inl e
      | Inr ms \<Rightarrow> Inr (ms + offset_ms s))"

definition get_current_subtitle :: "engine \<Rightarrow> real \<Rightarrow> py_error + subtitle option" where
  "get_current_subtitle s now =
     (if subtitles s = [] then Inr None
      else (case get_adjusted_time_ms s now of
              Inl e \<Rightarrow> Inl e
            | Inr current_time \<Rightarrow> get_subtitle_at_time (subtitles s) current_time))"

definition seek_to :: "engine \<Rightarrow> int \<Rightarrow> real \<Rightarrow> py_error option \<times> engine" where
  "seek_to s time_ms now =
     (let s1 = s\<lparr>pause_elapsed := time_ms\<rparr>
      in if is_running s1 then
           (case ms_to_seconds time_ms of
              Inl e \<Rightarrow> (Some e, s1)
            | Inr q \<Rightarrow> (None, s1\<lparr>start_time := Some (float_sub now q)\<rparr>))
         else (None, s1))"

text \<open>
  The run states of the specification, read off the fields: running, otherwise stopped
  while no anchor is set (after construction or \<open>reset\<close>), otherwise paused.
\<close>

datatype run_state = Stopped | Running | Paused

definition state_of :: "engine \<Rightarrow> run_state" where
  "state_of s = (if is_running s then Running
                 else if start_time s = None then Stopped else Paused)"

text \<open>
  Any sequence of calls of the state-changing methods, for statements about every state
  an engine can reach: each call leaves a state, whether it returned or raised.
\<close>

datatype command =
    Start real
  | Pause real
  | Toggle real
  | Reset
  | AdjustOffset int
  | SetOffset int
  | SetPlaybackTime int real
  | SeekTo int real

fun exec :: "engine \<Rightarrow> command \<Rightarrow> engine" where
  "exec s (Start now) = snd (start s now)"
| "exec s (Pause now) = snd (pause s now)"
| "exec s (Toggle now) = snd (toggle s now)"
| "exec s Reset = reset s"
| "exec s (AdjustOffset d) = adjust_offset s d"
| "exec s (SetOffset v) = set_offset s v"
| "exec s (SetPlaybackTime t now) = snd (set_playback_time s t now)"
| "exec s (SeekTo t now) = snd (seek_to s t now)"

text \<open>
  Cue ranges that are non-empty and pairwise disjoint as closed intervals: the
  well-formed, non-overlapping input of the lookup.
\<close>

fun disjoint_ranges :: "subtitle list \<Rightarrow> bool" where
  "disjoint_ranges [] = True"
| "disjoint_ranges (c # cs) =
     (start_ms c \<le> end_ms c \<and>
      list_all (\<lambda>d. end_ms c < start_ms d \<or> end_ms d < start_ms c) cs \<and>
      disjoint_ranges cs)"

text \<open>
  Concrete engines and cues for the scenarios of the specification. All clock readings
  used with them are binary64 numbers.
\<close>

definition running_100 :: engine where
  "running_100 = snd (start (init []) 100)"

definition paused_9000 :: engine where
  "paused_9000 = snd (pause running_100 109)"

definition paused_3 :: engine where
  "paused_3 = snd (pause running_100 (100 + 1 / 256))"

definition scenario_cues :: "subtitle list" where
  "scenario_cues =
     [\<lparr>index = 1, start_ms = 1000, end_ms = 4000, sub_text = ''Hello''\<rparr>,
      \<lparr>index = 2, start_ms = 5500, end_ms = 8200, sub_text = ''Second'' @ [CHR 0x0A] @ ''line''\<rparr>,
      \<lparr>index = 3, start_ms = 10000, end_ms = 12500, sub_text = ''italic stripped''\<rparr>]"

section \<open>Termination and totality of the lookup\<close>

lemma py_index_in_range:
  "0 \<le> i \<Longrightarrow> i < int (length xs) \<Longrightarrow> py_index xs i = Inr (xs ! nat i)"
  by (simp add: py_index_def)

lemma bsearch_loop_done:
  "\<not> left \<le> right \<Longrightarrow> bsearch_loop subs t left right = Inr None"
  by (subst bsearch_loop.simps) simp

lemma bsearch_loop_step:
  assumes "left \<le> right" "0 \<le> left" "right < int (length subs)"
  shows "bsearch_loop subs t left right =
           (if start_ms (subs ! nat ((left + right) div 2)) \<le> t \<and>
               t \<le> end_ms (subs ! nat ((left + right) div 2))
            then Inr (Some (subs ! nat ((left + right) div 2)))
            else if t < start_ms (subs ! nat ((left + right) div 2))
            then bsearch_loop subs t left ((left + right) div 2 - 1)
            else bsearch_loop subs t ((left + right) div 2 + 1) right)"
proof -
  have "left \<le> (left + right) div 2" "(left + right) div 2 \<le> right"
    using assms(1) by auto
  then have "py_index subs ((left + right) div 2) = Inr (subs ! nat ((left + right) div 2))"
    using assms(2,3) by (intro py_index_in_range) auto
  then show ?thesis
    using assms(1) by (subst bsearch_loop.simps) simp
qed

lemma bsearch_loop_total:
  "0 \<le> left \<Longrightarrow> right < int (length subs) \<Longrightarrow>
   bsearch_loop subs t left right = Inr None \<or>
   (\<exists>k. left \<le> int k \<and> int k \<le> right \<and> start_ms (subs ! k) \<le> t \<and> t \<le> end_ms (subs ! k) \<and>
        bsearch_loop subs t left right = Inr (Some (subs ! k)))"
proof (induction "nat (right - left + 1)" arbitrary: left right rule: less_induct)
  case less
  show ?case
  proof (cases "left \<le> right")
    case False
    then show ?thesis by (simp add: bsearch_loop_done)
  next
    case True
    define mid where "mid = (left + right) div 2"
    note step = bsearch_loop_step[OF True less.prems, of t, folded mid_def]
    have mid: "left \<le> mid" "mid \<le> right" using True by (auto simp: mid_def)
    let ?c = "subs ! nat mid"
    consider (hit) "start_ms ?c \<le> t \<and> t \<le> end_ms ?c"
      | (lo) "\<not> (start_ms ?c \<le> t \<and> t \<le> end_ms ?c)" "t < start_ms ?c"
      | (hi) "\<not> (start_ms ?c \<le> t \<and> t \<le> end_ms ?c)" "\<not> t < start_ms ?c"
      by blast
    then show ?thesis
    proof cases
      case hit
      have "0 \<le> mid" using mid less.prems by simp
      then have "left \<le> int (nat mid)" "int (nat mid) \<le> right"
        using mid by simp_all
      moreover have "bsearch_loop subs t left right = Inr (Some ?c)"
        using hit step by simp
      ultimately show ?thesis using hit by blast
    next
      case lo
      have "bsearch_loop subs t left (mid - 1) = Inr None \<or>
        (\<exists>k. left \<le> int k \<and> int k \<le> mid - 1 \<and> start_ms (subs ! k) \<le> t \<and> t \<le> end_ms (subs ! k) \<and>
          bsearch_loop subs t left (mid - 1) = Inr (Some (subs ! k)))"
        using mid less.prems True by (intro less.hyps) auto
      moreover have "bsearch_loop subs t left right = bsearch_loop subs t left (mid - 1)"
        using lo step by simp
      moreover have "\<And>k. int k \<le> mid - 1 \<Longrightarrow> int k \<le> right" using mid by simp
      ultimately show ?thesis by metis
    next
      case hi
      have "bsearch_loop subs t (mid + 1) right = Inr None \<or>
        (\<exists>k. mid + 1 \<le> int k \<and> int k \<le> right \<and> start_ms (subs ! k) \<le> t \<and> t \<le> end_ms (subs ! k) \<and>
          bsearch_loop subs t (mid + 1) right = Inr (Some (subs ! k)))"
        using mid less.prems True by (intro less.hyps) auto
      moreover have "bsearch_loop subs t left right = bsearch_loop subs t (mid + 1) right"
        using hi step by simp
      moreover have "\<And>k. mid + 1 \<le> int k \<Longrightarrow> left \<le> int k" using mid by simp
      ultimately show ?thesis by metis
    qed
  qed
qed

lemma get_subtitle_at_time_cases:
  "get_subtitle_at_time subs t = Inr None \<or>
   (\<exists>k < length subs. start_ms (subs ! k) \<le> t \<and> t \<le> end_ms (subs ! k) \<and>
        get_subtitle_at_time subs t = Inr (Some (subs ! k)))"
proof (cases "subs = []")
  case True
  then show ?thesis by (simp add: get_subtitle_at_time_def)
next
  case False
  have "bsearch_loop subs t 0 (int (length subs) - 1) = Inr None \<or>
   (\<exists>k. 0 \<le> int k \<and> int k \<le> int (length subs) - 1 \<and> start_ms (subs ! k) \<le> t \<and>
        t \<le> end_ms (subs ! k) \<and>
        bsearch_loop subs t 0 (int (length subs) - 1) = Inr (Some (subs ! k)))"
    by (rule bsearch_loop_total) auto
  then show ?thesis using False by (auto simp: get_subtitle_at_time_def)
qed

text \<open>
  C9: the interval lookup is total on every cue list (empty, unsorted, overlapping or
  with inverted ranges) and every query time: the loop terminates, no index is out of
  range (the result is never an IndexError), and the result is no cue or a cue of the
  list.
\<close>

theorem get_subtitle_at_time_total:
  "get_subtitle_at_time subs t = Inr None \<or>
   (\<exists>c \<in> set subs. get_subtitle_at_time subs t = Inr (Some c))"
  using get_subtitle_at_time_cases[of subs t] by (metis nth_mem)

section \<open>Correctness of the lookup on sorted, disjoint ranges\<close>

lemma disjoint_ranges_nonempty:
  "disjoint_ranges cs \<Longrightarrow> i < length cs \<Longrightarrow> start_ms (cs ! i) \<le> end_ms (cs ! i)"
proof (induction cs arbitrary: i)
  case Nil
  then show ?case by simp
next
  case (Cons c cs)
  then show ?case by (cases i) simp_all
qed

lemma disjoint_ranges_apart:
  "disjoint_ranges cs \<Longrightarrow> i < j \<Longrightarrow> j < length cs \<Longrightarrow>
   end_ms (cs ! i) < start_ms (cs ! j) \<or> end_ms (cs ! j) < start_ms (cs ! i)"
proof (induction cs arbitrary: i j)
  case Nil
  then show ?case by simp
next
  case (Cons c cs)
  obtain j' where j: "j = Suc j'" using Cons.prems(2) by (cases j) simp_all
  show ?case
  proof (cases i)
    case 0
    have "cs ! j' \<in> set cs" using Cons.prems(3) j by simp
    then show ?thesis using Cons.prems(1) 0 j by (simp add: list_all_iff)
  next
    case (Suc i')
    then show ?thesis using Cons j by simp
  qed
qed

lemma sorted_disjoint_chain:
  assumes "sorted (map start_ms cs)" "disjoint_ranges cs" "i < j" "j < length cs"
  shows "end_ms (cs ! i) < start_ms (cs ! j)"
proof -
  have "start_ms (cs ! i) \<le> start_ms (cs ! j)"
    using sorted_nth_mono[OF assms(1), of i j] assms(3,4) by simp
  moreover have "start_ms (cs ! j) \<le> end_ms (cs ! j)"
    using disjoint_ranges_nonempty[OF assms(2,4)] .
  ultimately show ?thesis
    using disjoint_ranges_apart[OF assms(2,3,4)] by linarith
qed

lemma bsearch_loop_finds:
  assumes chain: "\<And>i j. i < j \<Longrightarrow> j < length cs \<Longrightarrow> end_ms (cs ! i) < start_ms (cs ! j)"
    and nonempty: "\<And>i. i < length cs \<Longrightarrow> start_ms (cs ! i) \<le> end_ms (cs ! i)"
  shows "0 \<le> left \<Longrightarrow> right < int (length cs) \<Longrightarrow> left \<le> int k \<Longrightarrow> int k \<le> right \<Longrightarrow>
         start_ms (cs ! k) \<le> t \<Longrightarrow> t \<le> end_ms (cs ! k) \<Longrightarrow>
         bsearch_loop cs t left right = Inr (Some (cs ! k))"
proof (induction "nat (right - left + 1)" arbitrary: left right rule: less_induct)
  case less
  have lr: "left \<le> right" using less.prems by linarith
  define mid where "mid = (left + right) div 2"
  note step = bsearch_loop_step[OF lr less.prems(1,2), of t, folded mid_def]
  have mid: "left \<le> mid" "mid \<le> right" using lr by (auto simp: mid_def)
  have m0: "0 \<le> mid" "nat mid < length cs" using mid less.prems by auto
  have k: "k < length cs" using less.prems by auto
  let ?c = "cs ! nat mid"
  consider (eq) "nat mid = k" | (lt) "k < nat mid" | (gt) "nat mid < k" by linarith
  then show ?case
  proof cases
    case eq
    then show ?thesis using step less.prems by simp
  next
    case lt
    have "end_ms (cs ! k) < start_ms ?c" using chain[OF lt m0(2)] .
    then have a: "t < start_ms ?c" using less.prems by linarith
    then have "bsearch_loop cs t left right = bsearch_loop cs t left (mid - 1)"
      using step by simp
    moreover have "bsearch_loop cs t left (mid - 1) = Inr (Some (cs ! k))"
      using lt m0 mid less.prems by (intro less.hyps) auto
    ultimately show ?thesis by simp
  next
    case gt
    have "end_ms ?c < start_ms (cs ! k)" using chain[OF gt k] .
    then have a: "end_ms ?c < t" using less.prems by linarith
    moreover have "start_ms ?c \<le> end_ms ?c" using nonempty[OF m0(2)] .
    ultimately have "bsearch_loop cs t left right = bsearch_loop cs t (mid + 1) right"
      using step by simp
    moreover have "bsearch_loop cs t (mid + 1) right = Inr (Some (cs ! k))"
      using gt m0 mid less.prems by (intro less.hyps) auto
    ultimately show ?thesis by simp
  qed
qed

lemma lookup_finds:
  assumes "sorted (map start_ms cs)" "disjoint_ranges cs" "k < length cs"
    "start_ms (cs ! k) \<le> t" "t \<le> end_ms (cs ! k)"
  shows "get_subtitle_at_time cs t = Inr (Some (cs ! k))"
proof -
  have ne: "cs \<noteq> []" using assms(3) by auto
  have "bsearch_loop cs t 0 (int (length cs) - 1) = Inr (Some (cs ! k))"
    using assms(3,4,5)
    by (intro bsearch_loop_finds sorted_disjoint_chain[OF assms(1,2)]
        disjoint_ranges_nonempty[OF assms(2)]) auto
  then show ?thesis using ne by (simp add: get_subtitle_at_time_def)
qed

lemma lookup_gap:
  assumes "sorted (map start_ms cs)" "disjoint_ranges cs" "Suc i < length cs"
    "end_ms (cs ! i) < t" "t < start_ms (cs ! Suc i)"
  shows "get_subtitle_at_time cs t = Inr None"
proof -
  have no: "\<not> (start_ms (cs ! k) \<le> t \<and> t \<le> end_ms (cs ! k))" if k: "k < length cs" for k
  proof -
    consider "k = i" | "k < i" | "k = Suc i" | "Suc i < k" by linarith
    then show ?thesis
    proof cases
      case 1
      then show ?thesis using assms(4) by simp
    next
      case 2
      have "end_ms (cs ! k) < start_ms (cs ! i)"
        using sorted_disjoint_chain[OF assms(1,2) 2] assms(3) by simp
      moreover have "start_ms (cs ! i) \<le> end_ms (cs ! i)"
        using disjoint_ranges_nonempty[OF assms(2)] assms(3) by simp
      ultimately show ?thesis using assms(4) by linarith
    next
      case 3
      then show ?thesis using assms(5) by simp
    next
      case 4
      have "end_ms (cs ! Suc i) < start_ms (cs ! k)"
        using sorted_disjoint_chain[OF assms(1,2) 4 k] .
      moreover have "start_ms (cs ! Suc i) \<le> end_ms (cs ! Suc i)"
        using disjoint_ranges_nonempty[OF assms(2,3)] .
      ultimately show ?thesis using assms(5) by linarith
    qed
  qed
  show ?thesis using get_subtitle_at_time_cases[of cs t] no by blast
qed

lemma lookup_sound:
  "get_subtitle_at_time cs t = Inr (Some c) \<Longrightarrow> start_ms c \<le> t \<and> t \<le> end_ms c"
  using get_subtitle_at_time_cases[of cs t] by auto

section \<open>The parser: malformed blocks, tags\<close>

lemma digit_not_special:
  assumes "is_digit c"
  shows "is_space c = False" "(c = CHR '','') = False" "(c = CHR ''_'') = False"
    "(c = CHR ''-'') = False" "(c = CHR ''+'') = False" "(c = CHR '':'') = False"
    "(c = CHR ''.'') = False"
  using assms by (auto simp: is_digit_def is_space_def)

lemma strip_id: "s = [] \<or> (\<not> is_space (hd s) \<and> \<not> is_space (last s)) \<Longrightarrow> strip s = s"
proof (cases s)
  case Nil
  then show ?thesis by (simp add: strip_def)
next
  case (Cons c cs)
  assume "s = [] \<or> (\<not> is_space (hd s) \<and> \<not> is_space (last s))"
  then have a: "\<not> is_space c" and b: "\<not> is_space (last s)" using Cons by auto
  have "dropWhile is_space s = s" using a Cons by simp
  moreover have "hd (rev s) = last s" by (rule hd_rev)
  then have "dropWhile is_space (rev s) = rev s"
    using b Cons by (simp add: dropWhile_eq_self_iff)
  ultimately show ?thesis by (simp add: strip_def)
qed

lemma valid_digits_all: "ds \<noteq> [] \<Longrightarrow> list_all is_digit ds \<Longrightarrow> valid_digits ds"
  by (induction ds rule: valid_digits.induct) (auto simp: digit_not_special)

lemma py_int_digits:
  assumes "ds \<noteq> []" "list_all is_digit ds" "length ds \<le> 4300"
  shows "py_int ds = Inr (dec_value 0 ds)"
proof -
  obtain c cs where ds: "ds = c # cs" using assms(1) by (cases ds) auto
  have "is_digit (hd ds)" "is_digit (last ds)"
    using assms by (auto simp: list_all_iff)
  then have "strip ds = ds"
    by (intro strip_id) (simp add: digit_not_special)
  moreover have "is_digit c" using assms(2) ds by simp
  moreover have "length (filter is_digit ds) \<le> 4300"
    using assms(3) length_filter_le[of is_digit ds] by linarith
  ultimately show ?thesis
    using valid_digits_all[OF assms(1,2)] ds
    by (simp add: py_int_def digits_value_def int_max_str_digits_def digit_not_special)
qed

lemma match_classes_SomeD:
  "match_classes ps s = Some (m, r) \<Longrightarrow> s = m @ r \<and> list_all2 (\<lambda>p c. p c) ps m"
  by (induction ps s arbitrary: m rule: match_classes.induct)
     (auto split: if_splits option.splits)

lemma match_classes_exact:
  "list_all2 (\<lambda>p c. p c) ps m \<Longrightarrow> match_classes ps (m @ r) = Some (m, r)"
proof (induction ps arbitrary: m)
  case Nil
  then show ?case by simp
next
  case (Cons p ps)
  then obtain c m' where "m = c # m'" "p c" "list_all2 (\<lambda>p c. p c) ps m'"
    by (auto simp: list_all2_Cons1)
  then show ?case using Cons.IH by simp
qed


lemma not_digit_chars:
  "is_digit CHR '':'' = False" "is_digit CHR ''.'' = False" "is_digit CHR '','' = False"
  by (simp_all add: is_digit_def)

lemma dec_value_foldl:
  "list_all is_digit ds \<Longrightarrow>
   dec_value acc ds = foldl (\<lambda>n c. 10 * n + (of_char c - 48)) acc ds"
  by (induction ds arbitrary: acc) (simp_all add: digit_not_special mult.commute)

lemma py_int_decimal:
  "ds \<noteq> [] \<Longrightarrow> list_all is_digit ds \<Longrightarrow> length ds \<le> 4300 \<Longrightarrow> py_int ds = Inr (decimal ds)"
  by (simp add: py_int_digits dec_value_foldl decimal_def)

lemma to_ms_2:
  assumes "is_digit a" "is_digit b" "is_digit c" "is_digit d" "is_digit e" "is_digit f"
    "is_digit x" "is_digit y" "is_digit z" "sp = CHR '','' \<or> sp = CHR ''.''"
  shows "timestamp_to_ms [a, b, CHR '':'', c, d, CHR '':'', e, f, sp, x, y, z]
         = Inr (stamp_ms [a, b, CHR '':'', c, d, CHR '':'', e, f, sp, x, y, z])"
proof -
  have m: "map (\<lambda>c. if c = CHR '','' then CHR ''.'' else c)
             [a, b, CHR '':'', c, d, CHR '':'', e, f, sp, x, y, z]
           = [a, b, CHR '':'', c, d, CHR '':'', e, f, CHR ''.'', x, y, z]"
    using assms by (auto simp: digit_not_special)
  have s: "match_stamp [\<lambda>c. c = CHR ''.'']
             [a, b, CHR '':'', c, d, CHR '':'', e, f, CHR ''.'', x, y, z]
           = Some ([a, b, CHR '':'', c, d, CHR '':'', e, f, CHR ''.'', x, y, z], [])"
    using assms(1-9) by (simp add: match_stamp_def stamp_tail_def)
  show ?thesis
    unfolding timestamp_to_ms_def m s
    using assms(1-9) by (simp add: py_int_decimal stamp_ms_def)
qed

lemma to_ms_1:
  assumes "is_digit b" "is_digit c" "is_digit d" "is_digit e" "is_digit f"
    "is_digit x" "is_digit y" "is_digit z" "sp = CHR '','' \<or> sp = CHR ''.''"
  shows "timestamp_to_ms [b, CHR '':'', c, d, CHR '':'', e, f, sp, x, y, z]
         = Inr (stamp_ms [b, CHR '':'', c, d, CHR '':'', e, f, sp, x, y, z])"
proof -
  have m: "map (\<lambda>c. if c = CHR '','' then CHR ''.'' else c)
             [b, CHR '':'', c, d, CHR '':'', e, f, sp, x, y, z]
           = [b, CHR '':'', c, d, CHR '':'', e, f, CHR ''.'', x, y, z]"
    using assms by (auto simp: digit_not_special)
  have s: "match_stamp [\<lambda>c. c = CHR ''.'']
             [b, CHR '':'', c, d, CHR '':'', e, f, CHR ''.'', x, y, z]
           = Some ([b, CHR '':'', c, d, CHR '':'', e, f, CHR ''.'', x, y, z], [])"
    using assms(1-8) by (simp add: match_stamp_def stamp_tail_def not_digit_chars)
  show ?thesis
    unfolding timestamp_to_ms_def m s
    using assms(1-8) by (simp add: py_int_decimal stamp_ms_def)
qed

lemma match_stamp_to_ms:
  assumes "match_stamp [\<lambda>c. c = CHR '','' \<or> c = CHR ''.''] s = Some (g, r)"
  shows "timestamp_to_ms g = Inr (stamp_ms g)"
proof -
  let ?sep = "[\<lambda>c. c = CHR '','' \<or> c = CHR ''.'']"
  consider (two) "match_classes ([is_digit, is_digit] @ stamp_tail ?sep) s = Some (g, r)"
    | (one) "match_classes ([is_digit] @ stamp_tail ?sep) s = Some (g, r)"
    using assms by (auto simp: match_stamp_def split: option.splits)
  then show ?thesis
  proof cases
    case two
    from match_classes_SomeD[OF two]
    have "list_all2 (\<lambda>p c. p c) ([is_digit, is_digit] @ stamp_tail ?sep) g" by simp
    then show ?thesis
      by (auto simp: stamp_tail_def list_all2_Cons1 intro: to_ms_2)
  next
    case one
    from match_classes_SomeD[OF one]
    have "list_all2 (\<lambda>p c. p c) ([is_digit] @ stamp_tail ?sep) g" by simp
    then show ?thesis
      by (auto simp: stamp_tail_def list_all2_Cons1 intro: to_ms_1)
  qed
qed

lemma match_timestamp_line_to_ms:
  assumes "match_timestamp_line s = Some (g1, g2)"
  shows "timestamp_to_ms g1 = Inr (stamp_ms g1)" "timestamp_to_ms g2 = Inr (stamp_ms g2)"
  using assms
  by (auto simp: match_timestamp_line_def split: option.splits dest: match_stamp_to_ms)

lemma try_block_lines:
  assumes "3 \<le> length lines"
  shows "try_block lines =
     (case py_int (strip (lines ! 0)) of
        Inl e \<Rightarrow> Inl e
      | Inr idx \<Rightarrow>
          (case match_timestamp_line (strip (lines ! 1)) of
             None \<Rightarrow> Inr None
           | Some g \<Rightarrow>
               Inr (Some \<lparr>index = idx, start_ms = stamp_ms (fst g), end_ms = stamp_ms (snd g),
                          sub_text = re_sub_tags (strip (join_nl (drop 2 lines)))\<rparr>)))"
proof -
  have i: "py_index lines 0 = Inr (lines ! 0)" "py_index lines 1 = Inr (lines ! 1)"
    using assms by (auto simp: py_index_def)
  show ?thesis
    unfolding try_block_def i
    by (auto split: sum.splits option.splits dest: match_timestamp_line_to_ms)
qed

lemma split_on_nl_length: "1 \<le> length (split_on_nl line s)"
  by (induction s arbitrary: line) simp_all

lemma parse_blocks_step:
  "parse_blocks (b # bs) acc = parse_blocks bs (if well_formed b then acc @ [block_cue b] else acc)"
proof (cases "3 \<le> length (split_nl (strip b))")
  case False
  then have "\<not> well_formed b" by (simp add: well_formed_def Let_def)
  then show ?thesis using False by simp
next
  case True
  then have ne: "strip b \<noteq> []" by (auto simp: split_nl_def)
  have noov: "py_int s \<noteq> Inl OverflowError" "py_int s \<noteq> Inl IndexError" for s
    by (auto simp: py_int_def digits_value_def split: list.splits sum.splits if_splits)
  show ?thesis
    using True ne noov[of "strip (split_nl (strip b) ! 0)"]
    by (auto simp: try_block_lines well_formed_def block_cue_def Let_def
        split: sum.splits option.splits py_error.splits)
qed

lemma parse_blocks_filter:
  "parse_blocks bs acc = Inr (acc @ map block_cue (filter well_formed bs))"
proof (induction bs arbitrary: acc)
  case Nil
  then show ?case by simp
next
  case (Cons b bs)
  show ?case unfolding parse_blocks_step Cons.IH by simp
qed

lemmas parse_eval =
  strip_def is_space_def match_blank_def split_nl_def try_block_def py_index_def py_int_def
  digits_value_def int_max_str_digits_def is_digit_def match_timestamp_line_def match_stamp_def
  stamp_tail_def match_literal_def timestamp_to_ms_def match_tag_def

lemma sample_blocks:
  "re_split_blank [] (strip sample_srt) =
   [''1'' @ [CHR 0x0A] @ ''00:00:01,000 --> 00:00:04,000'' @ [CHR 0x0A] @ ''Hello'',
    ''2'' @ [CHR 0x0A] @ ''00:00:05,500 --> 00:00:08,200'' @ [CHR 0x0A] @ ''Second''
       @ [CHR 0x0A] @ ''line'',
    ''3'' @ [CHR 0x0A] @ ''00:00:10,000 --> 00:00:12,500'' @ [CHR 0x0A]
       @ ''<i>italic stripped</i>'']"
  by (simp add: sample_srt_def strip_def is_space_def match_blank_def)

lemma parse_sample: "parse_content sample_srt = Inr scenario_cues"
  unfolding parse_content_def sample_blocks scenario_cues_def
  by (simp add: parse_eval)





lemma reordered_blocks:
  "re_split_blank [] (strip reordered_srt) =
   [''2'' @ [CHR 0x0A] @ ''00:00:05,500 --> 00:00:08,200'' @ [CHR 0x0A] @ ''Second'',
    ''1'' @ [CHR 0x0A] @ ''00:00:01,000 --> 00:00:04,000'' @ [CHR 0x0A] @ ''Hello'']"
  by (simp add: reordered_srt_def strip_def is_space_def match_blank_def)

lemma parse_reordered:
  "parse_content reordered_srt =
     Inr [\<lparr>index = 1, start_ms = 1000, end_ms = 4000, sub_text = ''Hello''\<rparr>,
          \<lparr>index = 2, start_ms = 5500, end_ms = 8200, sub_text = ''Second''\<rparr>]"
  unfolding parse_content_def reordered_blocks
  by (simp add: parse_eval)

lemma parse_content_filter:
  "parse_content content =
     Inr (sort_key start_ms
            (map block_cue (filter well_formed (re_split_blank [] (strip content)))))"
  by (simp add: parse_content_def parse_blocks_filter)



lemma match_tag_other: "c \<noteq> CHR ''<'' \<Longrightarrow> match_tag (c # cs) = None"
  by (simp add: match_tag_def)

lemma match_tag_SomeD:
  assumes "match_tag (c # cs) = Some rest"
  shows "c = CHR ''<''" "takeWhile (\<lambda>x. x \<noteq> CHR ''>'') cs \<noteq> []"
    "dropWhile (\<lambda>x. x \<noteq> CHR ''>'') cs = CHR ''>'' # rest"
proof -
  have a: "c = CHR ''<''" "takeWhile (\<lambda>x. x \<noteq> CHR ''>'') cs \<noteq> []"
    "dropWhile (\<lambda>x. x \<noteq> CHR ''>'') cs \<noteq> []"
    "rest = tl (dropWhile (\<lambda>x. x \<noteq> CHR ''>'') cs)"
    using assms by (auto simp: match_tag_def split: if_splits)
  show "c = CHR ''<''" "takeWhile (\<lambda>x. x \<noteq> CHR ''>'') cs \<noteq> []" using a by simp_all
  have "hd (dropWhile (\<lambda>x. x \<noteq> CHR ''>'') cs) = CHR ''>''"
    using hd_dropWhile[OF a(3)] by simp
  then show "dropWhile (\<lambda>x. x \<noteq> CHR ''>'') cs = CHR ''>'' # rest"
    using a(3,4) by (cases "dropWhile (\<lambda>x. x \<noteq> CHR ''>'') cs") simp_all
qed

lemma match_tag_tag:
  assumes "name \<noteq> []" "CHR ''>'' \<notin> set name"
  shows "match_tag (CHR ''<'' # name @ CHR ''>'' # post) = Some post"
proof -
  have "takeWhile (\<lambda>x. x \<noteq> CHR ''>'') (name @ CHR ''>'' # post) = name"
    using assms(2) by (subst takeWhile_append2) auto
  moreover have "dropWhile (\<lambda>x. x \<noteq> CHR ''>'') (name @ CHR ''>'' # post) = CHR ''>'' # post"
    using assms(2) by (subst dropWhile_append2) auto
  ultimately show ?thesis using assms(1) by (simp add: match_tag_def)
qed

lemma re_sub_tags_subset: "set (re_sub_tags s) \<subseteq> set s"
proof (induction s rule: re_sub_tags.induct)
  case 1
  then show ?case by simp
next
  case (2 c cs)
  show ?case
  proof (cases "match_tag (c # cs)")
    case None
    then show ?thesis using 2 by auto
  next
    case (Some rest)
    have "set rest \<subseteq> set (dropWhile (\<lambda>x. x \<noteq> CHR ''>'') cs)"
      using match_tag_SomeD(3)[OF Some] by auto
    then have "set rest \<subseteq> set cs" using set_dropWhileD by fastforce
    then show ?thesis using 2(2)[OF Some] Some by auto
  qed
qed

lemma match_tag_None_kept:
  assumes "match_tag (c # cs) = None"
  shows "match_tag (c # re_sub_tags cs) = None"
proof (cases "c = CHR ''<''")
  case False
  then show ?thesis by (rule match_tag_other)
next
  case True
  then consider (a) "takeWhile (\<lambda>x. x \<noteq> CHR ''>'') cs = []"
    | (b) "dropWhile (\<lambda>x. x \<noteq> CHR ''>'') cs = []"
    using assms by (auto simp: match_tag_def split: if_splits)
  then show ?thesis
  proof cases
    case a
    show ?thesis
    proof (cases cs)
      case Nil
      then show ?thesis by (simp add: match_tag_def)
    next
      case (Cons d ds)
      then have "d = CHR ''>''" using a by (auto split: if_splits)
      then have "re_sub_tags cs = CHR ''>'' # re_sub_tags ds"
        using Cons by (simp add: match_tag_other)
      then show ?thesis by (simp add: match_tag_def)
    qed
  next
    case b
    then have "\<forall>x \<in> set cs. x \<noteq> CHR ''>''" by simp
    then have "\<forall>x \<in> set (re_sub_tags cs). x \<noteq> CHR ''>''"
      using re_sub_tags_subset[of cs] by blast
    then show ?thesis by (auto simp: match_tag_def)
  qed
qed

lemma re_sub_tags_no_tag: "\<not> has_tag (re_sub_tags s)"
proof (induction s rule: re_sub_tags.induct)
  case 1
  then show ?case by simp
next
  case (2 c cs)
  show ?case
  proof (cases "match_tag (c # cs)")
    case None
    then show ?thesis using 2(1)[OF None] match_tag_None_kept[OF None] by simp
  next
    case (Some rest)
    then show ?thesis using 2(2)[OF Some] by simp
  qed
qed

lemma re_sub_tags_plain: "CHR ''<'' \<notin> set pre \<Longrightarrow> re_sub_tags (pre @ s) = pre @ re_sub_tags s"
  by (induction pre) (auto simp: match_tag_other)

lemma re_sub_tags_tag:
  "name \<noteq> [] \<Longrightarrow> CHR ''>'' \<notin> set name \<Longrightarrow>
   re_sub_tags (CHR ''<'' # name @ CHR ''>'' # post) = re_sub_tags post"
  by (simp add: match_tag_tag)

lemma has_tag_iff:
  "has_tag s \<longleftrightarrow>
   (\<exists>pre name post. s = pre @ CHR ''<'' # name @ CHR ''>'' # post \<and> name \<noteq> [] \<and>
      CHR ''>'' \<notin> set name)"
proof (induction s)
  case Nil
  then show ?case by simp
next
  case (Cons c cs)
  show ?case
  proof
    assume h: "has_tag (c # cs)"
    show "\<exists>pre name post. c # cs = pre @ CHR ''<'' # name @ CHR ''>'' # post \<and> name \<noteq> [] \<and>
      CHR ''>'' \<notin> set name"
    proof (cases "match_tag (c # cs)")
      case None
      then have "has_tag cs" using h by simp
      then obtain pre name post where
        "cs = pre @ CHR ''<'' # name @ CHR ''>'' # post" "name \<noteq> []" "CHR ''>'' \<notin> set name"
        using Cons.IH by blast
      then have "c # cs = (c # pre) @ CHR ''<'' # name @ CHR ''>'' # post \<and> name \<noteq> [] \<and>
        CHR ''>'' \<notin> set name" by simp
      then show ?thesis by blast
    next
      case (Some rest)
      let ?n = "takeWhile (\<lambda>x. x \<noteq> CHR ''>'') cs"
      have "cs = ?n @ dropWhile (\<lambda>x. x \<noteq> CHR ''>'') cs" by simp
      then have "c # cs = [] @ CHR ''<'' # ?n @ CHR ''>'' # rest"
        using match_tag_SomeD(1,3)[OF Some] by simp
      moreover have "?n \<noteq> []" using match_tag_SomeD(2)[OF Some] .
      moreover have "CHR ''>'' \<notin> set ?n" using set_takeWhileD by fastforce
      ultimately show ?thesis by blast
    qed
  next
    assume "\<exists>pre name post. c # cs = pre @ CHR ''<'' # name @ CHR ''>'' # post \<and> name \<noteq> [] \<and>
      CHR ''>'' \<notin> set name"
    then obtain pre name post where
      e: "c # cs = pre @ CHR ''<'' # name @ CHR ''>'' # post" and n: "name \<noteq> []" "CHR ''>'' \<notin> set name"
      by blast
    show "has_tag (c # cs)"
    proof (cases pre)
      case Nil
      then have "match_tag (c # cs) = Some post" using e match_tag_tag[OF n] by simp
      then show ?thesis by simp
    next
      case (Cons d pre')
      then have "cs = pre' @ CHR ''<'' # name @ CHR ''>'' # post" using e by simp
      then have "has_tag cs" using Cons.IH n by blast
      then show ?thesis by (simp split: option.split)
    qed
  qed
qed

lemma block_cue_no_tag: "\<not> has_tag (sub_text (block_cue b))"
  by (simp add: block_cue_def Let_def re_sub_tags_no_tag)



text \<open>
  C8: tags are stripped at parse time whatever their name. No cue of a parse result has a
  tag in its text; the text of the cue of a well-formed block is what \<open>re_sub_tags\<close> makes
  of its text lines; \<open>re_sub_tags\<close> removes a tag \<open><name>\<close> that follows text free of
  \<open><\<close> and goes on behind it, leaves text free of \<open><\<close> as it is, and makes of
  \<open><name>text</name>\<close> the text, when that is free of \<open><\<close>; the sample of
  Scenario A parses to the three cues of the scenario, the third with the text
  \<open>italic stripped\<close>.
\<close>

theorem tags_stripped:
  "(parse_content content = Inr cs \<longrightarrow> (\<forall>c \<in> set cs. \<not> has_tag (sub_text c))) \<and>
   (well_formed block \<longrightarrow>
      parse_blocks [block] [] = Inr [block_cue block] \<and>
      sub_text (block_cue block)
        = re_sub_tags (strip (join_nl (drop 2 (split_nl (strip block)))))) \<and>
   (CHR ''<'' \<notin> set pre \<and> name \<noteq> [] \<and> CHR ''>'' \<notin> set name \<longrightarrow>
      re_sub_tags (pre @ CHR ''<'' # name @ CHR ''>'' # post) = pre @ re_sub_tags post) \<and>
   (CHR ''<'' \<notin> set pre \<longrightarrow> re_sub_tags pre = pre) \<and>
   (CHR ''<'' \<notin> set pre \<and> name \<noteq> [] \<and> CHR ''>'' \<notin> set name \<longrightarrow>
      re_sub_tags (CHR ''<'' # name @ CHR ''>'' # pre @ CHR ''<'' # CHR ''/'' # name @ [CHR ''>''])
        = pre) \<and>
   parse_content sample_srt = Inr scenario_cues"
proof -
  have a: "\<forall>c \<in> set cs. \<not> has_tag (sub_text c)" if "parse_content content = Inr cs"
    using that by (auto simp: parse_content_filter block_cue_no_tag)
  have b: "parse_blocks [block] [] = Inr [block_cue block] \<and>
      sub_text (block_cue block)
        = re_sub_tags (strip (join_nl (drop 2 (split_nl (strip block)))))"
    if "well_formed block"
    using that by (simp add: parse_blocks_filter block_cue_def Let_def)
  have c: "re_sub_tags (pre @ CHR ''<'' # name @ CHR ''>'' # post) = pre @ re_sub_tags post"
    if "CHR ''<'' \<notin> set pre" "name \<noteq> []" "CHR ''>'' \<notin> set name"
    using re_sub_tags_plain[OF that(1), of "CHR ''<'' # name @ CHR ''>'' # post"]
      re_sub_tags_tag[OF that(2,3), of post] by simp
  have d: "re_sub_tags pre = pre" if "CHR ''<'' \<notin> set pre"
    using re_sub_tags_plain[OF that, of "[]"] by simp
  have e: "re_sub_tags (CHR ''<'' # name @ CHR ''>'' # pre @ CHR ''<'' # CHR ''/'' # name @ [CHR ''>''])
        = pre"
    if h: "CHR ''<'' \<notin> set pre" "name \<noteq> []" "CHR ''>'' \<notin> set name"
  proof -
    have "re_sub_tags (CHR ''<'' # name @ CHR ''>'' # pre @ CHR ''<'' # CHR ''/'' # name @ [CHR ''>''])
        = re_sub_tags (pre @ CHR ''<'' # (CHR ''/'' # name) @ [CHR ''>''])"
      using re_sub_tags_tag[OF h(2,3), of "pre @ CHR ''<'' # CHR ''/'' # name @ [CHR ''>'']"]
      by simp
    also have "\<dots> = pre @ re_sub_tags (CHR ''<'' # (CHR ''/'' # name) @ [CHR ''>''])"
      using h(1) by (rule re_sub_tags_plain)
    also have "re_sub_tags (CHR ''<'' # (CHR ''/'' # name) @ [CHR ''>'']) = re_sub_tags []"
      using h(3) by (intro re_sub_tags_tag) auto
    finally show ?thesis by simp
  qed
  show ?thesis using a b c d e parse_sample by blast
qed

theorem tags_stripped_witness:
  "parse_content sample_srt = Inr scenario_cues \<and>
   \<not> has_tag (sub_text (scenario_cues ! 2)) \<and>
   sub_text (scenario_cues ! 2) = ''italic stripped'' \<and>
   re_sub_tags ''<i>italic stripped</i>'' = ''italic stripped'' \<and>
   re_sub_tags ''a<br/>b'' = ''ab''"
proof -
  have w: "CHR ''<'' \<notin> set ''italic stripped''" "CHR ''<'' \<notin> set ''a''" "CHR ''<'' \<notin> set ''b''"
    "CHR ''>'' \<notin> set ''i''" "CHR ''>'' \<notin> set ''/i''" "CHR ''>'' \<notin> set ''br/''"
    by simp_all
  have t: "sub_text (scenario_cues ! 2) = ''italic stripped''" by (simp add: scenario_cues_def)
  have m: "scenario_cues ! 2 \<in> set scenario_cues" by (simp add: scenario_cues_def)
  have n: "\<not> has_tag (sub_text (scenario_cues ! 2))"
    using tags_stripped[of sample_srt scenario_cues "[]" "[]" "''i''" "[]"] parse_sample m
    by blast
  show ?thesis
    using n tags_stripped[of sample_srt scenario_cues "[]" "[]" "''i''" "''italic stripped</i>''"]
      tags_stripped[of sample_srt scenario_cues "[]" "''italic stripped''" "''/i''" "[]"]
      tags_stripped[of sample_srt scenario_cues "[]" "''a''" "''br/''" "''b''"]
      tags_stripped[of sample_srt scenario_cues "[]" "''b''" "''br/''" "''b''"]
      w t
    by simp
qed

text \<open>
  C1: for a parse result whose ranges are non-empty and pairwise disjoint, the lookup at
  the start and at the end of a cue returns that cue, a time strictly between two
  consecutive cues returns no cue, the cue at index \<open>i\<close> is returned exactly for the times
  of its closed range, and no cue is returned exactly for the times outside every range.
\<close>

theorem parse_lookup_round_trip:
  assumes "parse_content content = Inr cs" and "disjoint_ranges cs"
  shows "(\<forall>i < length cs.
            get_subtitle_at_time cs (start_ms (cs ! i)) = Inr (Some (cs ! i)) \<and>
            get_subtitle_at_time cs (end_ms (cs ! i)) = Inr (Some (cs ! i))) \<and>
         (\<forall>i t. Suc i < length cs \<and> end_ms (cs ! i) < t \<and> t < start_ms (cs ! Suc i) \<longrightarrow>
            get_subtitle_at_time cs t = Inr None) \<and>
         (\<forall>i t. i < length cs \<longrightarrow>
            (get_subtitle_at_time cs t = Inr (Some (cs ! i))
               \<longleftrightarrow> start_ms (cs ! i) \<le> t \<and> t \<le> end_ms (cs ! i))) \<and>
         (\<forall>t. get_subtitle_at_time cs t = Inr None
               \<longleftrightarrow> (\<forall>i < length cs. t < start_ms (cs ! i) \<or> end_ms (cs ! i) < t))"
proof -
  have s: "sorted (map start_ms cs)"
    using assms(1) by (auto simp: parse_content_filter)
  note d = assms(2)
  have ne: "start_ms (cs ! i) \<le> end_ms (cs ! i)" if "i < length cs" for i
    using disjoint_ranges_nonempty[OF d that] .
  have a: "\<forall>i < length cs.
            get_subtitle_at_time cs (start_ms (cs ! i)) = Inr (Some (cs ! i)) \<and>
            get_subtitle_at_time cs (end_ms (cs ! i)) = Inr (Some (cs ! i))"
    using lookup_finds[OF s d] ne by simp
  have b: "\<forall>i t. Suc i < length cs \<and> end_ms (cs ! i) < t \<and> t < start_ms (cs ! Suc i) \<longrightarrow>
            get_subtitle_at_time cs t = Inr None"
    using lookup_gap[OF s d] by blast
  have c: "\<forall>i t. i < length cs \<longrightarrow>
            (get_subtitle_at_time cs t = Inr (Some (cs ! i))
               \<longleftrightarrow> start_ms (cs ! i) \<le> t \<and> t \<le> end_ms (cs ! i))"
    using lookup_finds[OF s d] lookup_sound by blast
  have e: "get_subtitle_at_time cs t = Inr None
               \<longleftrightarrow> (\<forall>i < length cs. t < start_ms (cs ! i) \<or> end_ms (cs ! i) < t)" for t
  proof
    assume n: "get_subtitle_at_time cs t = Inr None"
    show "\<forall>i < length cs. t < start_ms (cs ! i) \<or> end_ms (cs ! i) < t"
    proof (intro allI impI)
      fix i assume i: "i < length cs"
      show "t < start_ms (cs ! i) \<or> end_ms (cs ! i) < t"
      proof (rule ccontr)
        assume "\<not> (t < start_ms (cs ! i) \<or> end_ms (cs ! i) < t)"
        then have "get_subtitle_at_time cs t = Inr (Some (cs ! i))"
          using lookup_finds[OF s d i, of t] by simp
        then show False using n by simp
      qed
    qed
  next
    assume "\<forall>i < length cs. t < start_ms (cs ! i) \<or> end_ms (cs ! i) < t"
    then show "get_subtitle_at_time cs t = Inr None"
      using get_subtitle_at_time_cases[of cs t] by fastforce
  qed
  show ?thesis using a b c e by blast
qed

theorem parse_lookup_round_trip_witness:
  "parse_content sample_srt = Inr scenario_cues \<and> disjoint_ranges scenario_cues \<and>
   get_subtitle_at_time scenario_cues 1000 = Inr (Some (scenario_cues ! 0)) \<and>
   get_subtitle_at_time scenario_cues 4000 = Inr (Some (scenario_cues ! 0)) \<and>
   get_subtitle_at_time scenario_cues 4500 = Inr None \<and>
   get_subtitle_at_time scenario_cues 8200 = Inr (Some (scenario_cues ! 1)) \<and>
   get_subtitle_at_time scenario_cues 9999 = Inr None \<and>
   get_subtitle_at_time scenario_cues 12500 = Inr (Some (scenario_cues ! 2))"
proof -
  have d: "disjoint_ranges scenario_cues" by (simp add: scenario_cues_def)
  have l: "length scenario_cues = 3" by (simp add: scenario_cues_def)
  have v: "start_ms (scenario_cues ! 0) = 1000" "end_ms (scenario_cues ! 0) = 4000"
    "start_ms (scenario_cues ! 1) = 5500" "end_ms (scenario_cues ! 1) = 8200"
    "start_ms (scenario_cues ! 2) = 10000" "end_ms (scenario_cues ! 2) = 12500"
    by (simp_all add: scenario_cues_def)
  note r = parse_lookup_round_trip[OF parse_sample d]
  have "get_subtitle_at_time scenario_cues 1000 = Inr (Some (scenario_cues ! 0))"
    "get_subtitle_at_time scenario_cues 4000 = Inr (Some (scenario_cues ! 0))"
    "get_subtitle_at_time scenario_cues 8200 = Inr (Some (scenario_cues ! 1))"
    "get_subtitle_at_time scenario_cues 12500 = Inr (Some (scenario_cues ! 2))"
    using r[THEN conjunct1, rule_format, of 0] r[THEN conjunct1, rule_format, of 1]
      r[THEN conjunct1, rule_format, of 2] l v by simp_all
  moreover have "get_subtitle_at_time scenario_cues 4500 = Inr None"
    "get_subtitle_at_time scenario_cues 9999 = Inr None"
    using r[THEN conjunct2, THEN conjunct1, rule_format, of 0 4500]
      r[THEN conjunct2, THEN conjunct1, rule_format, of 1 9999] l v
    by (simp_all add: numeral_2_eq_2)
  ultimately show ?thesis using parse_sample d by simp
qed

section \<open>Rounding to binary64\<close>

lemma ulp_search_range: "e - int n \<le> ulp_search n a e \<and> ulp_search n a e \<le> e"
proof (induction n arbitrary: e)
  case 0
  then show ?case by simp
next
  case (Suc n)
  show ?case using Suc[of "e - 1"] by auto
qed

lemma ulp_search_lower: "ulp_search n a e = e - int n \<or> 2 powi (ulp_search n a e + 52) \<le> a"
proof (induction n arbitrary: e)
  case 0
  then show ?case by simp
next
  case (Suc n)
  show ?case using Suc[of "e - 1"] by auto
qed

lemma pow2_le_iff: "(2::real) powi a \<le> 2 powi b \<longleftrightarrow> a \<le> b"
proof
  assume h: "(2::real) powi a \<le> 2 powi b"
  show "a \<le> b"
  proof (rule ccontr)
    assume "\<not> a \<le> b"
    then have "(2::real) powi b < 2 powi a" by (intro power_int_strict_increasing) auto
    then show False using h by simp
  qed
next
  assume "a \<le> b"
  then show "(2::real) powi a \<le> 2 powi b" by (intro power_int_increasing) auto
qed

lemma pow2_less_iff: "(2::real) powi a < 2 powi b \<longleftrightarrow> a < b"
  using pow2_le_iff[of b a] by (auto simp: not_le[symmetric])

lemma pow2_pos: "0 < (2::real) powi a"
  by simp

lemma pow2_add: "(2::real) powi (a + b) = 2 powi a * 2 powi b"
  by (simp add: power_int_add)

lemma pow2_diff: "(2::real) powi (a - b) = 2 powi a / 2 powi b"
  by (simp add: power_int_diff)

lemma ulp_search_eq:
  assumes "2 powi (q + 52) \<le> a" "a < 2 powi (q + 53)"
  shows "q \<le> e \<Longrightarrow> e - int n \<le> q \<Longrightarrow> ulp_search n a e = q"
proof (induction n arbitrary: e)
  case 0
  then show ?case by simp
next
  case (Suc n)
  show ?case
  proof (cases "2 powi (e + 52) \<le> a")
    case True
    then have "(2::real) powi (e + 52) < 2 powi (q + 53)" using assms(2) by linarith
    then have "e \<le> q" by (simp add: pow2_less_iff)
    then show ?thesis using True Suc.prems by simp
  next
    case False
    then have "e \<noteq> q" using assms(1) by auto
    then have "ulp_search n a (e - 1) = q" using Suc.prems by (intro Suc.IH) auto
    then show ?thesis using False by simp
  qed
qed

lemma ulp_exp_le:
  assumes "a \<le> 2 powi k" "-1022 \<le> k"
  shows "ulp_exp a \<le> k - 52"
proof -
  consider "ulp_exp a = 971 - int 2045" | "2 powi (ulp_exp a + 52) \<le> a"
    using ulp_search_lower[of 2045 a 971] by (auto simp: ulp_exp_def)
  then show ?thesis
  proof cases
    case 1
    then show ?thesis using assms(2) by simp
  next
    case 2
    then have "(2::real) powi (ulp_exp a + 52) \<le> 2 powi k" using assms(1) by linarith
    then show ?thesis by (simp add: pow2_le_iff)
  qed
qed

lemma ulp_exp_range: "-1074 \<le> ulp_exp a \<and> ulp_exp a \<le> 971"
  using ulp_search_range[of 971 2045 a] by (simp add: ulp_exp_def)

lemma round_half_even_close: "\<bar>of_int (round_half_even x) - x\<bar> \<le> 1 / 2"
  unfolding round_half_even_def by (auto simp: abs_if) linarith+

lemma round_half_even_of_int: "round_half_even (of_int n) = n"
  by (simp add: round_half_even_def)

lemma round_double_error:
  assumes "\<bar>x\<bar> \<le> 2 powi k" "-1022 \<le> k" "k \<le> 1023"
  shows "\<exists>y. round_double x = Finite y \<and> \<bar>y - x\<bar> \<le> 2 powi (k - 53)"
proof -
  define u where "u = ulp_exp \<bar>x\<bar>"
  define y where "y = of_int (round_half_even (x / 2 powi u)) * (2::real) powi u"
  have u: "u \<le> k - 52" unfolding u_def using assms(1,2) by (rule ulp_exp_le)
  have p: "0 < (2::real) powi u" by (rule pow2_pos)
  have "y - x = (of_int (round_half_even (x / 2 powi u)) - x / 2 powi u) * 2 powi u"
    using p by (simp add: y_def field_simps)
  then have "\<bar>y - x\<bar> = \<bar>of_int (round_half_even (x / 2 powi u)) - x / 2 powi u\<bar> * 2 powi u"
    using p by (simp add: abs_mult)
  also have "\<dots> \<le> 1 / 2 * 2 powi u"
    using round_half_even_close[of "x / 2 powi u"] p by (intro mult_right_mono) auto
  also have "\<dots> = 2 powi (u - 1)" by (simp add: pow2_diff)
  also have "\<dots> \<le> 2 powi (k - 53)" using u by (simp add: pow2_le_iff)
  finally have e: "\<bar>y - x\<bar> \<le> 2 powi (k - 53)" .
  have "(2::real) powi (k - 53) < 2 powi k" by (simp add: pow2_less_iff)
  then have "\<bar>y\<bar> < 2 powi k + 2 powi k" using e assms(1) by linarith
  also have "\<dots> = 2 powi (k + 1)" by (simp add: pow2_add)
  also have "\<dots> \<le> 2 powi 1024" using assms(3) by (simp only: pow2_le_iff)
  finally have "\<bar>y\<bar> < overflow_bound" by (simp add: overflow_bound_def)
  then have "round_double x = Finite y"
    unfolding round_double_def Let_def u_def[symmetric] y_def[symmetric] by auto
  then show ?thesis using e by blast
qed


lemma round_half_even_bound:
  assumes "\<bar>z\<bar> < 2 ^ 53"
  shows "\<bar>real_of_int (round_half_even z)\<bar> \<le> 2 ^ 53"
proof -
  have "\<bar>real_of_int (round_half_even z)\<bar> < 2 ^ 53 + 1"
    using round_half_even_close[of z] assms by linarith
  then have "\<bar>round_half_even z\<bar> < 2 ^ 53 + 1"
    by (metis (mono_tags, opaque_lifting) of_int_abs of_int_less_iff of_int_numeral
        of_int_power of_int_add of_int_1)
  then have "\<bar>round_half_even z\<bar> \<le> 2 ^ 53" by linarith
  then have "real_of_int \<bar>round_half_even z\<bar> \<le> real_of_int (2 ^ 53)"
    by (simp only: of_int_le_iff)
  then show ?thesis by simp
qed

lemma round_double_eval:
  assumes "2 powi (q + 52) \<le> \<bar>x\<bar>" "\<bar>x\<bar> < 2 powi (q + 53)" "-1074 \<le> q" "q \<le> 970"
  shows "round_double x = Finite (of_int (round_half_even (x / 2 powi q)) * 2 powi q)"
proof -
  have u: "ulp_exp \<bar>x\<bar> = q"
    unfolding ulp_exp_def using assms by (intro ulp_search_eq) auto
  define y where "y = of_int (round_half_even (x / 2 powi q)) * (2::real) powi q"
  have p: "0 < (2::real) powi q" by (rule pow2_pos)
  have "\<bar>x / 2 powi q\<bar> = \<bar>x\<bar> / 2 powi q" using p by simp
  also have "\<dots> < 2 powi (q + 53) / 2 powi q"
    using assms(2) p by (intro divide_strict_right_mono)
  also have "\<dots> = 2 ^ 53" using p by (simp add: pow2_add)
  finally have "\<bar>real_of_int (round_half_even (x / 2 powi q))\<bar> \<le> 2 ^ 53"
    by (rule round_half_even_bound)
  then have "\<bar>y\<bar> \<le> 2 ^ 53 * 2 powi q"
    using p by (simp add: y_def abs_mult mult_right_mono)
  also have "\<dots> = 2 powi (q + 53)" by (simp add: pow2_add)
  also have "\<dots> \<le> 2 powi 1023" using assms(4) by (simp only: pow2_le_iff)
  also have "\<dots> < 2 powi 1024" by (simp only: pow2_less_iff)
  finally have "\<bar>y\<bar> < overflow_bound" by (simp add: overflow_bound_def)
  then show ?thesis
    unfolding round_double_def Let_def u y_def[symmetric] by auto
qed

lemma round_double_exact:
  assumes "x = of_int m * 2 powi e" "\<bar>m\<bar> < 2 ^ 53" "-1074 \<le> e" "e \<le> 971"
  shows "round_double x = Finite x"
proof -
  define u where "u = ulp_exp \<bar>x\<bar>"
  have pe: "0 < (2::real) powi e" and pu: "0 < (2::real) powi u" by (rule pow2_pos)+
  have "real_of_int \<bar>m\<bar> < real_of_int (2 ^ 53)" using assms(2) by (simp only: of_int_less_iff)
  then have m: "\<bar>real_of_int m\<bar> < 2 ^ 53" by simp
  have "\<bar>x\<bar> = \<bar>real_of_int m\<bar> * 2 powi e" using pe by (simp add: assms(1) abs_mult)
  also have "\<dots> < 2 ^ 53 * 2 powi e" using m pe by (simp add: mult_strict_right_mono)
  also have "\<dots> = 2 powi (e + 53)" by (simp add: pow2_add)
  finally have x: "\<bar>x\<bar> < 2 powi (e + 53)" .
  have ue: "u \<le> e"
  proof -
    consider "u = 971 - int 2045" | "2 powi (u + 52) \<le> \<bar>x\<bar>"
      using ulp_search_lower[of 2045 "\<bar>x\<bar>" 971] by (auto simp: ulp_exp_def u_def)
    then show ?thesis
    proof cases
      case 1
      then show ?thesis using assms(3) by simp
    next
      case 2
      then have "(2::real) powi (u + 52) < 2 powi (e + 53)" using x by linarith
      then show ?thesis by (simp add: pow2_less_iff)
    qed
  qed
  have "(2::real) powi e = 2 powi (e - u) * 2 powi u"
    using pow2_add[of "e - u" u] by simp
  moreover have "(2::real) powi (e - u) = of_int (2 ^ nat (e - u))"
    using ue by (simp add: power_int_def)
  ultimately have d: "x / 2 powi u = of_int (m * 2 ^ nat (e - u))"
    using pu by (simp add: assms(1))
  have "of_int (round_half_even (x / 2 powi u)) * 2 powi u = x"
    unfolding d round_half_even_of_int using d pu by (simp add: field_simps)
  moreover have "\<bar>x\<bar> < overflow_bound"
  proof -
    have "(2::real) powi (e + 53) \<le> 2 powi 1024" using assms(4) by (simp only: pow2_le_iff)
    then show ?thesis using x by (simp add: overflow_bound_def)
  qed
  ultimately show ?thesis
    unfolding round_double_def Let_def u_def[symmetric] by auto
qed

lemma round_double_of_int: "\<bar>n\<bar> < 2 ^ 53 \<Longrightarrow> round_double (of_int n) = Finite (of_int n)"
  using round_double_exact[of "of_int n" n 0] by simp

lemma float_of_int_exact: "\<bar>n\<bar> < 2 ^ 53 \<Longrightarrow> float_of_int n = Inr (of_int n)"
  by (simp add: float_of_int_def round_double_of_int)

lemma pow2_values:
  "(2::real) powi (-22) = 1 / 4194304" "(2::real) powi (-20) = 1 / 1048576"
  "(2::real) powi (-10) = 1 / 1024" "(2::real) powi 31 = 2147483648"
  "(2::real) powi 33 = 8589934592" "(2::real) powi 43 = 8796093022208"
  by simp_all

lemma py_int_of_float_close:
  "py_int_of_float (Finite a) = Inr e \<Longrightarrow> \<bar>of_int e - a\<bar> < 1"
  by (auto simp: py_int_of_float_def abs_if split: if_splits) linarith+

lemma py_int_of_float_upper:
  "py_int_of_float (Finite a) = Inr e \<Longrightarrow> of_int e \<le> max a 0"
  by (auto simp: py_int_of_float_def split: if_splits)

text \<open>
  The re-anchoring of \<open>start\<close> (resume) and \<open>set_playback_time\<close>: the anchor is
  \<open>now - p / 1000.0\<close>, and a later reading \<open>t\<close> gives \<open>int((t - anchor) * 1000)\<close>.
\<close>

lemma reanchor_read:
  assumes p: "0 \<le> p" "p \<le> 2 ^ 40" and r: "0 \<le> r" "r \<le> t" "t \<le> 2 ^ 32"
  shows "\<exists>q a e. ms_to_seconds p = Inr (Finite q) \<and> float_sub r (Finite q) = Finite a \<and>
           \<bar>a - (r - of_int p / 1000)\<bar> \<le> 1 / 2 ^ 19 \<and>
           py_int_of_float (float_times 1000 (float_sub t (Finite a))) = Inr e \<and>
           \<bar>of_int e - (of_int p + (t - r) * 1000)\<bar> < 1 + 1 / 256 \<and>
           of_int e \<le> of_int p + (t - r) * 1000 + 1 / 256 \<and>
           p - 1 \<le> e"
proof -
  have "real_of_int p \<le> real_of_int (2 ^ 40)" using p(2) by (simp only: of_int_le_iff)
  then have pr: "0 \<le> real_of_int p" "real_of_int p \<le> 1099511627776"
    using p(1) by simp_all
  have tr: "0 \<le> r" "r \<le> t" "t \<le> 4294967296" using r by simp_all
  have "\<bar>p\<bar> < 2 ^ 53" using p by simp
  then have f: "float_of_int p = Inr (of_int p)" by (rule float_of_int_exact)
  have "\<bar>real_of_int p / 1000\<bar> \<le> 2 powi 31"
    unfolding pow2_values using pr by linarith
  from round_double_error[OF this]
  obtain q where q: "round_double (real_of_int p / 1000) = Finite q"
    "\<bar>q - real_of_int p / 1000\<bar> \<le> 1 / 4194304"
    by (auto simp: pow2_values)
  have "\<bar>r - q\<bar> \<le> 2 powi 33"
    unfolding pow2_values using q(2) pr tr by linarith
  from round_double_error[OF this]
  obtain a where a: "round_double (r - q) = Finite a" "\<bar>a - (r - q)\<bar> \<le> 1 / 1048576"
    by (auto simp: pow2_values)
  have "\<bar>t - a\<bar> \<le> 2 powi 33"
    unfolding pow2_values using a(2) q(2) pr tr by linarith
  from round_double_error[OF this]
  obtain d where d: "round_double (t - a) = Finite d" "\<bar>d - (t - a)\<bar> \<le> 1 / 1048576"
    by (auto simp: pow2_values)
  have "\<bar>d * 1000\<bar> \<le> 2 powi 43"
    unfolding pow2_values using d(2) a(2) q(2) pr tr by linarith
  from round_double_error[OF this]
  obtain m where m: "round_double (d * 1000) = Finite m" "\<bar>m - d * 1000\<bar> \<le> 1 / 1024"
    by (auto simp: pow2_values)
  obtain e where e: "py_int_of_float (Finite m) = Inr e"
    by (simp add: py_int_of_float_def)
  let ?x = "real_of_int p + (t - r) * 1000"
  have b: "m \<le> d * 1000 + 1 / 1024" "d * 1000 - 1 / 1024 \<le> m"
    "d \<le> t - a + 1 / 1048576" "t - a - 1 / 1048576 \<le> d"
    "a \<le> r - q + 1 / 1048576" "r - q - 1 / 1048576 \<le> a"
    "q \<le> real_of_int p / 1000 + 1 / 4194304" "real_of_int p / 1000 - 1 / 4194304 \<le> q"
    using m(2) d(2) a(2) q(2) by linarith+
  have "m - ?x < 1 / 256" "- (1 / 256) < m - ?x" using b by argo+
  then have mx: "\<bar>m - ?x\<bar> < 1 / 256" by argo
  have c: "\<bar>real_of_int e - m\<bar> < 1" using e by (rule py_int_of_float_close)
  have u: "real_of_int e \<le> max m 0" using e by (rule py_int_of_float_upper)
  have x0: "0 \<le> ?x" using pr tr by simp
  have 1: "\<bar>real_of_int e - ?x\<bar> < 1 + 1 / 256" using c mx by argo
  have 2: "real_of_int e \<le> ?x + 1 / 256" using u mx x0 by argo
  have "real_of_int p - 1 - 1 / 256 < real_of_int e" using 1 tr by argo
  then have "real_of_int (p - 1) - 1 < real_of_int e" by simp
  then have 3: "p - 1 \<le> e" by linarith
  have 4: "\<bar>a - (r - real_of_int p / 1000)\<bar> \<le> 1 / 2 ^ 19" using a(2) q(2) by simp argo
  have "ms_to_seconds p = Inr (Finite q)" by (simp add: ms_to_seconds_def f q(1))
  moreover have "float_sub r (Finite q) = Finite a" by (simp add: float_sub_def a(1))
  moreover have "py_int_of_float (float_times 1000 (float_sub t (Finite a))) = Inr e"
    by (simp add: float_sub_def float_times_def d(1) m(1) e)
  ultimately show ?thesis using 1 2 3 4 by blast
qed

text \<open>The roundings met by the scenarios.\<close>

lemma rd_1_256:
  "round_double (1 / 256)
     = Finite (1 / 256)"
  using round_double_eval[of "- 60" "1 / 256"]
  by (simp add: round_half_even_def)

lemma rd_125_32:
  "round_double (125 / 32)
     = Finite (125 / 32)"
  using round_double_eval[of "- 51" "125 / 32"]
  by (simp add: round_half_even_def)

lemma rd_3_1000:
  "round_double (3 / 1000)
     = Finite (3458764513820541 / 1152921504606846976)"
  using round_double_eval[of "- 61" "3 / 1000"]
  by (simp add: round_half_even_def)

lemma rd_230580842156855574659_1152921504606846976:
  "round_double (230580842156855574659 / 1152921504606846976)
     = Finite (3518384432325067 / 17592186044416)"
  using round_double_eval[of "- 45" "230580842156855574659 / 1152921504606846976"]
  by (simp add: round_half_even_def)

lemma rd_52776558133_17592186044416:
  "round_double (52776558133 / 17592186044416)
     = Finite (52776558133 / 17592186044416)"
  using round_double_eval[of "- 61" "52776558133 / 17592186044416"]
  by (simp add: round_half_even_def)

lemma rd_6597069766625_2199023255552:
  "round_double (6597069766625 / 2199023255552)
     = Finite (6597069766625 / 2199023255552)"
  using round_double_eval[of "- 51" "6597069766625 / 2199023255552"]
  by (simp add: round_half_even_def)

lemma rd_8848869580341_17592186044416:
  "round_double (8848869580341 / 17592186044416)
     = Finite (8848869580341 / 17592186044416)"
  using round_double_eval[of "- 53" "8848869580341 / 17592186044416"]
  by (simp add: round_half_even_def)

lemma rd_1106108697542625_2199023255552:
  "round_double (1106108697542625 / 2199023255552)
     = Finite (1106108697542625 / 2199023255552)"
  using round_double_eval[of "- 44" "1106108697542625 / 2199023255552"]
  by (simp add: round_half_even_def)

lemma rd_1_2:
  "round_double (1 / 2)
     = Finite (1 / 2)"
  using round_double_eval[of "- 53" "1 / 2"]
  by (simp add: round_half_even_def)

lemma rd_500:
  "round_double (500)
     = Finite (500)"
  using round_double_eval[of "- 44" "500"]
  by (simp add: round_half_even_def)

lemma rd_172934766926513225859_1152921504606846976:
  "round_double (172934766926513225859 / 1152921504606846976)
     = Finite (2638775130104267 / 17592186044416)"
  using round_double_eval[of "- 45" "172934766926513225859 / 1152921504606846976"]
  by (simp add: round_half_even_def)

lemma rd_9:
  "round_double (9)
     = Finite (9)"
  using round_double_eval[of "- 49" "9"]
  by (simp add: round_half_even_def)

lemma rd_9000:
  "round_double (9000)
     = Finite (9000)"
  using round_double_eval[of "- 39" "9000"]
  by (simp add: round_half_even_def)

lemma rd_191:
  "round_double (191)
     = Finite (191)"
  using round_double_eval[of "- 45" "191"]
  by (simp add: round_half_even_def)

lemma rd_19_2:
  "round_double (19 / 2)
     = Finite (19 / 2)"
  using round_double_eval[of "- 49" "19 / 2"]
  by (simp add: round_half_even_def)

lemma rd_9500:
  "round_double (9500)
     = Finite (9500)"
  using round_double_eval[of "- 39" "9500"]
  by (simp add: round_half_even_def)

lemma rd_141:
  "round_double (141)
     = Finite (141)"
  using round_double_eval[of "- 45" "141"]
  by (simp add: round_half_even_def)

lemma rd_5499_1000:
  "round_double (5499 / 1000)
     = Finite (6191323587727589 / 1125899906842624)"
  using round_double_eval[of "- 50" "5499 / 1000"]
  by (simp add: round_half_even_def)

lemma rd_773915448465948625_140737488355328:
  "round_double (773915448465948625 / 140737488355328)
     = Finite (5499)"
  using round_double_eval[of "- 40" "773915448465948625 / 140737488355328"]
  by (simp add: round_half_even_def)

lemma rd_11_2:
  "round_double (11 / 2)
     = Finite (11 / 2)"
  using round_double_eval[of "- 50" "11 / 2"]
  by (simp add: round_half_even_def)

lemma rd_5500:
  "round_double (5500)
     = Finite (5500)"
  using round_double_eval[of "- 40" "5500"]
  by (simp add: round_half_even_def)

lemma rd_3499_1000:
  "round_double (3499 / 1000)
     = Finite (7879047548084683 / 2251799813685248)"
  using round_double_eval[of "- 51" "3499 / 1000"]
  by (simp add: round_half_even_def)

lemma rd_984880943510585375_281474976710656:
  "round_double (984880943510585375 / 281474976710656)
     = Finite (3499)"
  using round_double_eval[of "- 41" "984880943510585375 / 281474976710656"]
  by (simp add: round_half_even_def)

lemma rd_7_2:
  "round_double (7 / 2)
     = Finite (7 / 2)"
  using round_double_eval[of "- 51" "7 / 2"]
  by (simp add: round_half_even_def)

lemma rd_3500:
  "round_double (3500)
     = Finite (3500)"
  using round_double_eval[of "- 41" "3500"]
  by (simp add: round_half_even_def)


lemmas rd_values =
  rd_1_256
  rd_125_32
  rd_3_1000
  rd_230580842156855574659_1152921504606846976
  rd_52776558133_17592186044416
  rd_6597069766625_2199023255552
  rd_8848869580341_17592186044416
  rd_1106108697542625_2199023255552
  rd_1_2
  rd_500
  rd_172934766926513225859_1152921504606846976
  rd_9
  rd_9000
  rd_191
  rd_19_2
  rd_9500
  rd_141
  rd_5499_1000
  rd_773915448465948625_140737488355328
  rd_11_2
  rd_5500
  rd_3499_1000
  rd_984880943510585375_281474976710656
  rd_7_2
  rd_3500

section \<open>The sync engine's clock\<close>

lemmas engine_eval =
  start_def pause_def get_elapsed_ms_def set_playback_time_def ms_to_seconds_def float_sub_def
  float_times_def py_int_of_float_def float_of_int_exact get_adjusted_time_ms_def
  get_current_subtitle_def adjust_offset_def init_def Let_def

lemma running_100_eq:
  "running_100 = \<lparr>subtitles = [], start_time = Some (Finite 100), offset_ms = 0,
     is_running = True, pause_elapsed = 0, current_subtitle = None\<rparr>"
  by (simp add: running_100_def start_def init_def)

lemma paused_3_eq:
  "paused_3 = \<lparr>subtitles = [], start_time = Some (Finite 100), offset_ms = 0,
     is_running = False, pause_elapsed = 3, current_subtitle = None\<rparr>"
  by (simp add: paused_3_def running_100_eq engine_eval rd_values)

lemma paused_9000_eq:
  "paused_9000 = \<lparr>subtitles = [], start_time = Some (Finite 100), offset_ms = 0,
     is_running = False, pause_elapsed = 9000, current_subtitle = None\<rparr>"
  by (simp add: paused_9000_def running_100_eq engine_eval rd_values)

lemma resume_read:
  assumes "state_of s = Paused" "0 \<le> pause_elapsed s" "pause_elapsed s \<le> 2 ^ 40"
    and "0 \<le> r" "r \<le> t" "t \<le> 2 ^ 32"
  shows "\<exists>s' e. start s r = (None, s') \<and> state_of s' = Running \<and>
           pause_elapsed s' = pause_elapsed s \<and> get_elapsed_ms s' t = Inr e \<and>
           \<bar>of_int e - (of_int (pause_elapsed s) + (t - r) * 1000)\<bar> < 1 + 1 / 256 \<and>
           of_int e \<le> of_int (pause_elapsed s) + (t - r) * 1000 + 1 / 256 \<and>
           pause_elapsed s - 1 \<le> e"
proof -
  from assms(1) obtain st where st: "start_time s = Some st" and nr: "\<not> is_running s"
    by (auto simp: state_of_def split: if_splits)
  from reanchor_read[OF assms(2-6)] obtain q a e where
    q: "ms_to_seconds (pause_elapsed s) = Inr (Finite q)" and
    a: "float_sub r (Finite q) = Finite a" and
    e: "py_int_of_float (float_times 1000 (float_sub t (Finite a))) = Inr e" and
    b: "\<bar>of_int e - (of_int (pause_elapsed s) + (t - r) * 1000)\<bar> < 1 + 1 / 256"
      "of_int e \<le> of_int (pause_elapsed s) + (t - r) * 1000 + 1 / 256"
      "pause_elapsed s - 1 \<le> e"
    by blast
  let ?s = "s\<lparr>start_time := Some (Finite a), is_running := True\<rparr>"
  have "start s r = (None, ?s)" using st nr q a by (simp add: start_def)
  moreover have "state_of ?s = Running" by (simp add: state_of_def)
  moreover have "pause_elapsed ?s = pause_elapsed s" by simp
  moreover have "get_elapsed_ms ?s t = Inr e" using e by (simp add: get_elapsed_ms_def)
  ultimately show ?thesis using b by blast
qed

lemma reanchor_running:
  assumes "state_of s = Running" "0 \<le> p" "p \<le> 2 ^ 40"
    and "0 \<le> now" "now \<le> u" "u \<le> 2 ^ 32"
  shows "\<exists>s' a e. set_playback_time s p now = (None, s') \<and> state_of s' = Running \<and>
           start_time s' = Some (Finite a) \<and> \<bar>a - (now - of_int p / 1000)\<bar> \<le> 1 / 2 ^ 19 \<and>
           get_elapsed_ms s' u = Inr e \<and>
           \<bar>of_int e - (of_int p + (u - now) * 1000)\<bar> < 1 + 1 / 256 \<and>
           of_int e \<le> of_int p + (u - now) * 1000 + 1 / 256 \<and>
           p - 1 \<le> e \<and> start s' r = (None, s')"
proof -
  from assms(1) have run: "is_running s" by (auto simp: state_of_def split: if_splits)
  from reanchor_read[OF assms(2-6)] obtain q a e where
    q: "ms_to_seconds p = Inr (Finite q)" and
    a: "float_sub now (Finite q) = Finite a" and
    c: "\<bar>a - (now - of_int p / 1000)\<bar> \<le> 1 / 2 ^ 19" and
    e: "py_int_of_float (float_times 1000 (float_sub u (Finite a))) = Inr e" and
    b: "\<bar>of_int e - (of_int p + (u - now) * 1000)\<bar> < 1 + 1 / 256"
      "of_int e \<le> of_int p + (u - now) * 1000 + 1 / 256"
      "p - 1 \<le> e"
    by blast
  let ?s = "s\<lparr>pause_elapsed := p, start_time := Some (Finite a)\<rparr>"
  have "set_playback_time s p now = (None, ?s)"
    using run q a by (simp add: set_playback_time_def)
  moreover have "state_of ?s = Running" using run by (simp add: state_of_def)
  moreover have "start_time ?s = Some (Finite a)" by simp
  moreover have "get_elapsed_ms ?s u = Inr e" using e run by (simp add: get_elapsed_ms_def)
  moreover have "start ?s r = (None, ?s)" using run by (simp add: start_def)
  ultimately show ?thesis using b c by blast
qed

text \<open>
  C2, as claimed, fails on binary64 arithmetic: an engine started at clock reading 100 and
  paused at \<open>100 + 1/256\<close> is frozen at 3 ms; resumed at reading 200 it reports 2 ms at
  the very instant of the resume and 502 ms half a second later, where the claim has 3
  and 503: the resume sets the clock back by one millisecond.
\<close>

theorem resume_jumps_back_counterexample:
  "state_of paused_3 = Paused \<and> pause_elapsed paused_3 = 3 \<and>
   fst (start paused_3 200) = None \<and>
   get_elapsed_ms (snd (start paused_3 200)) 200 = Inr 2 \<and>
   get_elapsed_ms (snd (start paused_3 200)) (401 / 2) = Inr 502"
  by (simp add: paused_3_eq state_of_def engine_eval rd_values)

text \<open>
  C2, amended (resume continuity up to one millisecond): for a paused engine with frozen
  time \<open>p\<close> between 0 and \<open>2 ^ 40\<close> ms and clock readings between 0 and \<open>2 ^ 32\<close> s,
  \<open>start\<close> at reading \<open>resume\<close> returns normally and leaves the engine running, and the
  elapsed time read at any \<open>t\<close> from \<open>resume\<close> on differs from \<open>p + (t - resume) * 1000\<close> by
  less than \<open>1 + 1/256\<close> ms: it is never below \<open>p - 1\<close>, it is ahead of \<open>p\<close> by no more than
  the wall time elapsed since the resume plus \<open>1/256\<close> ms (so by no more than that time
  rounded up to a whole millisecond), and at the instant of the resume it is \<open>p\<close> or
  \<open>p - 1\<close>.
\<close>

theorem resume_continuity:
  assumes "state_of s = Paused" "0 \<le> pause_elapsed s" "pause_elapsed s \<le> 2 ^ 40"
    and "0 \<le> resume" "resume \<le> t" "t \<le> 2 ^ 32"
  shows "\<exists>s' e. start s resume = (None, s') \<and> state_of s' = Running \<and>
           pause_elapsed s' = pause_elapsed s \<and> get_elapsed_ms s' t = Inr e \<and>
           \<bar>of_int e - (of_int (pause_elapsed s) + (t - resume) * 1000)\<bar> < 1 + 1 / 256 \<and>
           of_int e \<le> of_int (pause_elapsed s) + (t - resume) * 1000 + 1 / 256 \<and>
           pause_elapsed s - 1 \<le> e \<and>
           e - pause_elapsed s \<le> \<lceil>(t - resume) * 1000\<rceil> \<and>
           (t = resume \<longrightarrow> e = pause_elapsed s \<or> e = pause_elapsed s - 1)"
proof -
  from resume_read[OF assms] obtain s' e where
    a: "start s resume = (None, s')" "state_of s' = Running"
      "pause_elapsed s' = pause_elapsed s" "get_elapsed_ms s' t = Inr e" and
    b: "\<bar>of_int e - (of_int (pause_elapsed s) + (t - resume) * 1000)\<bar> < 1 + 1 / 256"
      "of_int e \<le> of_int (pause_elapsed s) + (t - resume) * 1000 + 1 / 256"
      "pause_elapsed s - 1 \<le> e"
    by blast
  have "e = pause_elapsed s \<or> e = pause_elapsed s - 1" if "t = resume"
  proof -
    have "real_of_int e < real_of_int (pause_elapsed s) + 1" using b(2) that by simp
    then have "e < pause_elapsed s + 1" by linarith
    then show ?thesis using b(3) by linarith
  qed
  moreover have "e - pause_elapsed s \<le> \<lceil>(t - resume) * 1000\<rceil>"
  proof -
    define w where "w = (t - resume) * 1000"
    have "w \<le> real_of_int \<lceil>w\<rceil>" by (rule le_of_int_ceiling)
    moreover have "real_of_int e \<le> real_of_int (pause_elapsed s) + w + 1 / 256"
      using b(2) by (simp add: w_def)
    ultimately have "real_of_int e - real_of_int (pause_elapsed s) < real_of_int \<lceil>w\<rceil> + 1"
      by argo
    then have "real_of_int (e - pause_elapsed s) < real_of_int (\<lceil>(t - resume) * 1000\<rceil> + 1)"
      by (simp add: w_def)
    then have "e - pause_elapsed s < \<lceil>(t - resume) * 1000\<rceil> + 1" by (simp only: of_int_less_iff)
    then show ?thesis by simp
  qed
  ultimately show ?thesis using a b by blast
qed

theorem resume_continuity_witness:
  "state_of paused_9000 = Paused \<and> pause_elapsed paused_9000 = 9000 \<and>
   (\<exists>s' e. start paused_9000 200 = (None, s') \<and> get_elapsed_ms s' (401 / 2) = Inr e \<and>
      \<bar>real_of_int e - 9500\<bar> < 1 + 1 / 256 \<and> 8999 \<le> e) \<and>
   get_elapsed_ms (snd (start paused_9000 200)) (401 / 2) = Inr 9500"
proof -
  have p: "state_of paused_9000 = Paused" by (simp add: paused_9000_eq state_of_def)
  have q: "pause_elapsed paused_9000 = 9000" by (simp add: paused_9000_eq)
  have h: "0 \<le> pause_elapsed paused_9000" "pause_elapsed paused_9000 \<le> 2 ^ 40"
    "(0::real) \<le> 200" "(200::real) \<le> 401 / 2" "(401 / 2 :: real) \<le> 2 ^ 32"
    by (simp_all add: q)
  from resume_continuity[OF p h] obtain s' e where
    a: "start paused_9000 200 = (None, s')" "get_elapsed_ms s' (401 / 2) = Inr e" and
    b: "\<bar>real_of_int e - (real_of_int (pause_elapsed paused_9000) + (401 / 2 - 200) * 1000)\<bar>
          < 1 + 1 / 256"
      "pause_elapsed paused_9000 - 1 \<le> e"
    by blast
  have "\<bar>real_of_int e - 9500\<bar> < 1 + 1 / 256" "8999 \<le> e" using b by (simp_all add: q)
  then have "\<exists>s' e. start paused_9000 200 = (None, s') \<and> get_elapsed_ms s' (401 / 2) = Inr e \<and>
      \<bar>real_of_int e - 9500\<bar> < 1 + 1 / 256 \<and> 8999 \<le> e"
    using a by blast
  moreover have "get_elapsed_ms (snd (start paused_9000 200)) (401 / 2) = Inr 9500"
    by (simp add: paused_9000_eq engine_eval rd_values)
  ultimately show ?thesis using p q by blast
qed

text \<open>
  C3, as claimed, fails. On a freshly constructed (stopped) engine \<open>set_playback_time 9000\<close>
  leaves the reported elapsed time at 0, and a following \<open>start\<close> counts from 0 (500 after
  half a second), not from 9000. And the re-anchoring is exact only up to rounding: on
  the engine running since reading 100, \<open>set_playback_time 3\<close> at reading 150 makes the
  elapsed time read at that same instant 2, not 3.
\<close>

theorem set_playback_time_stopped_counterexample:
  "state_of (init []) = Stopped \<and>
   get_elapsed_ms (snd (set_playback_time (init []) 9000 0)) 0 = Inr 0 \<and>
   get_elapsed_ms (snd (start (snd (set_playback_time (init []) 9000 0)) 1)) (3 / 2) = Inr 500 \<and>
   state_of running_100 = Running \<and>
   get_elapsed_ms (snd (set_playback_time running_100 3 150)) 150 = Inr 2"
  by (simp add: running_100_eq state_of_def engine_eval rd_values)

text \<open>
  C3, amended: in every run state \<open>set_playback_time t\<close> stores \<open>t\<close> as the frozen elapsed
  time. From the paused state it returns normally, the engine stays paused and reports
  exactly \<open>t\<close>, and a following \<open>start\<close> counts on from \<open>t\<close> up to one millisecond. From the
  running state the anchor becomes \<open>now - t / 1000\<close> up to rounding, the elapsed time read
  from then on continues from \<open>t\<close> up to one millisecond, and a following \<open>start\<close> changes
  nothing. The bounds are for \<open>t\<close> between 0 and \<open>2 ^ 40\<close> ms and clock readings between 0
  and \<open>2 ^ 32\<close> s. From the stopped state the engine stays stopped and reports 0, and a
  following \<open>start\<close> is a fresh start: it puts the frozen time back to 0 and anchors at
  its own clock reading.
\<close>

theorem set_playback_time_reconciles:
  "pause_elapsed (snd (set_playback_time s t now)) = t \<and>
   (state_of s = Stopped \<longrightarrow>
      set_playback_time s t now = (None, s\<lparr>pause_elapsed := t\<rparr>) \<and>
      state_of (snd (set_playback_time s t now)) = Stopped \<and>
      get_elapsed_ms (snd (set_playback_time s t now)) later = Inr 0 \<and>
      start (snd (set_playback_time s t now)) r
        = (None, s\<lparr>start_time := Some (Finite r), pause_elapsed := 0, is_running := True\<rparr>)) \<and>
   (state_of s = Paused \<longrightarrow>
      set_playback_time s t now = (None, s\<lparr>pause_elapsed := t\<rparr>) \<and>
      state_of (snd (set_playback_time s t now)) = Paused \<and>
      get_elapsed_ms (snd (set_playback_time s t now)) later = Inr t) \<and>
   (state_of s = Paused \<and> 0 \<le> t \<and> t \<le> 2 ^ 40 \<and> 0 \<le> r \<and> r \<le> u \<and> u \<le> 2 ^ 32 \<longrightarrow>
      (\<exists>s' e. start (snd (set_playback_time s t now)) r = (None, s') \<and>
         state_of s' = Running \<and> get_elapsed_ms s' u = Inr e \<and>
         \<bar>of_int e - (of_int t + (u - r) * 1000)\<bar> < 1 + 1 / 256 \<and>
         of_int e \<le> of_int t + (u - r) * 1000 + 1 / 256 \<and> t - 1 \<le> e)) \<and>
   (state_of s = Running \<and> 0 \<le> t \<and> t \<le> 2 ^ 40 \<and> 0 \<le> now \<and> now \<le> u \<and> u \<le> 2 ^ 32 \<longrightarrow>
      (\<exists>s' a e. set_playback_time s t now = (None, s') \<and> state_of s' = Running \<and>
         start_time s' = Some (Finite a) \<and> \<bar>a - (now - of_int t / 1000)\<bar> \<le> 1 / 2 ^ 19 \<and>
         get_elapsed_ms s' u = Inr e \<and>
         \<bar>of_int e - (of_int t + (u - now) * 1000)\<bar> < 1 + 1 / 256 \<and>
         of_int e \<le> of_int t + (u - now) * 1000 + 1 / 256 \<and> t - 1 \<le> e \<and>
         start s' r = (None, s')))"
proof -
  have a: "pause_elapsed (snd (set_playback_time s t now)) = t"
    by (simp add: set_playback_time_def Let_def split: sum.split)
  have b: "set_playback_time s t now = (None, s\<lparr>pause_elapsed := t\<rparr>) \<and>
      state_of (snd (set_playback_time s t now)) = Paused \<and>
      get_elapsed_ms (snd (set_playback_time s t now)) later = Inr t"
    if "state_of s = Paused"
  proof -
    from that obtain st where "start_time s = Some st" "\<not> is_running s"
      by (auto simp: state_of_def split: if_splits)
    then show ?thesis
      by (simp add: set_playback_time_def state_of_def get_elapsed_ms_def)
  qed
  have c: "\<exists>s' e. start (snd (set_playback_time s t now)) r = (None, s') \<and>
         state_of s' = Running \<and> get_elapsed_ms s' u = Inr e \<and>
         \<bar>of_int e - (of_int t + (u - r) * 1000)\<bar> < 1 + 1 / 256 \<and>
         of_int e \<le> of_int t + (u - r) * 1000 + 1 / 256 \<and> t - 1 \<le> e"
    if h: "state_of s = Paused" "0 \<le> t" "t \<le> 2 ^ 40" "0 \<le> r" "r \<le> u" "u \<le> 2 ^ 32"
  proof -
    let ?s = "snd (set_playback_time s t now)"
    have "state_of ?s = Paused" using b[OF h(1)] by blast
    moreover have "pause_elapsed ?s = t" by (rule a)
    ultimately show ?thesis using resume_read[of ?s r u] h(2-6) by auto
  qed
  have d: "\<exists>s' a e. set_playback_time s t now = (None, s') \<and> state_of s' = Running \<and>
         start_time s' = Some (Finite a) \<and> \<bar>a - (now - of_int t / 1000)\<bar> \<le> 1 / 2 ^ 19 \<and>
         get_elapsed_ms s' u = Inr e \<and>
         \<bar>of_int e - (of_int t + (u - now) * 1000)\<bar> < 1 + 1 / 256 \<and>
         of_int e \<le> of_int t + (u - now) * 1000 + 1 / 256 \<and> t - 1 \<le> e \<and>
         start s' r = (None, s')"
    if "state_of s = Running" "0 \<le> t" "t \<le> 2 ^ 40" "0 \<le> now" "now \<le> u" "u \<le> 2 ^ 32"
    using reanchor_running[OF that] .
  have e: "set_playback_time s t now = (None, s\<lparr>pause_elapsed := t\<rparr>) \<and>
      state_of (snd (set_playback_time s t now)) = Stopped \<and>
      get_elapsed_ms (snd (set_playback_time s t now)) later = Inr 0 \<and>
      start (snd (set_playback_time s t now)) r
        = (None, s\<lparr>start_time := Some (Finite r), pause_elapsed := 0, is_running := True\<rparr>)"
    if "state_of s = Stopped"
  proof -
    from that have "start_time s = None" "\<not> is_running s"
      by (auto simp: state_of_def split: if_splits)
    then show ?thesis
      by (simp add: set_playback_time_def state_of_def get_elapsed_ms_def start_def)
  qed
  show ?thesis using a b c d e by blast
qed

theorem set_playback_time_reconciles_witness:
  "state_of paused_3 = Paused \<and>
   get_elapsed_ms (snd (set_playback_time paused_3 9000 150)) 150 = Inr 9000 \<and>
   (\<exists>s' e. start (snd (set_playback_time paused_3 9000 150)) 200 = (None, s') \<and>
      get_elapsed_ms s' (401 / 2) = Inr e \<and> \<bar>real_of_int e - 9500\<bar> < 1 + 1 / 256) \<and>
   state_of running_100 = Running \<and>
   (\<exists>s' e. set_playback_time running_100 9000 150 = (None, s') \<and>
      get_elapsed_ms s' (301 / 2) = Inr e \<and> \<bar>real_of_int e - 9500\<bar> < 1 + 1 / 256) \<and>
   get_elapsed_ms (snd (start (snd (set_playback_time paused_3 9000 150)) 200)) (401 / 2)
     = Inr 9500 \<and>
   get_elapsed_ms (snd (set_playback_time running_100 9000 150)) (301 / 2) = Inr 9500"
proof -
  have p: "state_of paused_3 = Paused" by (simp add: paused_3_eq state_of_def)
  have q: "state_of running_100 = Running" by (simp add: running_100_eq state_of_def)
  note t1 = set_playback_time_reconciles[of paused_3 9000 150 150 200 "401 / 2"]
  note t2 = set_playback_time_reconciles[of running_100 9000 150 150 200 "301 / 2"]
  have a: "get_elapsed_ms (snd (set_playback_time paused_3 9000 150)) 150 = Inr 9000"
    using t1 p by blast
  have h1: "state_of paused_3 = Paused \<and> (0::int) \<le> 9000 \<and> (9000::int) \<le> 2 ^ 40 \<and>
      (0::real) \<le> 200 \<and> (200::real) \<le> 401 / 2 \<and> (401 / 2 :: real) \<le> 2 ^ 32"
    using p by simp
  from t1 h1 obtain s1 e1 where
    b: "start (snd (set_playback_time paused_3 9000 150)) 200 = (None, s1)"
      "get_elapsed_ms s1 (401 / 2) = Inr e1"
      "\<bar>real_of_int e1 - (real_of_int 9000 + (401 / 2 - 200) * 1000)\<bar> < 1 + 1 / 256"
    by blast
  have b': "\<bar>real_of_int e1 - 9500\<bar> < 1 + 1 / 256" using b(3) by simp
  have h2: "state_of running_100 = Running \<and> (0::int) \<le> 9000 \<and> (9000::int) \<le> 2 ^ 40 \<and>
      (0::real) \<le> 150 \<and> (150::real) \<le> 301 / 2 \<and> (301 / 2 :: real) \<le> 2 ^ 32"
    using q by simp
  from t2 h2 obtain s2 e2 where
    c: "set_playback_time running_100 9000 150 = (None, s2)"
      "get_elapsed_ms s2 (301 / 2) = Inr e2"
      "\<bar>real_of_int e2 - (real_of_int 9000 + (301 / 2 - 150) * 1000)\<bar> < 1 + 1 / 256"
    by blast
  have c': "\<bar>real_of_int e2 - 9500\<bar> < 1 + 1 / 256" using c(3) by simp
  have d: "get_elapsed_ms (snd (start (snd (set_playback_time paused_3 9000 150)) 200)) (401 / 2)
     = Inr 9500"
    by (simp add: paused_3_eq engine_eval rd_values)
  have e: "get_elapsed_ms (snd (set_playback_time running_100 9000 150)) (301 / 2) = Inr 9500"
    by (simp add: running_100_eq engine_eval rd_values)
  show ?thesis using p q a b(1,2) b' c(1,2) c' d e by blast
qed

text \<open>
  C4: the adjusted time is the elapsed time plus the offset and the lookup uses it, so
  with the cue starting at 5500 ms an offset of +2000 makes the cue active from elapsed
  time 3500 ms, where with offset 0 it is active from 5500 ms: a positive offset shows
  each cue earlier, not later as the documentation of \<open>adjust_offset\<close> says. The readings
  5.499 and 3.499 enter through the first subtraction, which rounds them to binary64.
\<close>

theorem positive_offset_shows_cue_earlier:
  "fst (start (init scenario_cues) 0) = None \<and>
   get_current_subtitle (snd (start (init scenario_cues) 0)) (5499 / 1000) = Inr None \<and>
   get_current_subtitle (snd (start (init scenario_cues) 0)) (5500 / 1000)
     = Inr (Some (scenario_cues ! 1)) \<and>
   get_current_subtitle (adjust_offset (snd (start (init scenario_cues) 0)) 2000) (3499 / 1000)
     = Inr None \<and>
   get_current_subtitle (adjust_offset (snd (start (init scenario_cues) 0)) 2000) (3500 / 1000)
     = Inr (Some (scenario_cues ! 1))"
  by (simp add: engine_eval rd_values scenario_cues_def
      get_subtitle_at_time_def bsearch_loop.simps py_index_def)

text \<open>
  C5: \<open>reset\<close> clears the anchor, zeroes the frozen and the reported elapsed time, stops
  the engine and clears the cached cue; the offset and the cue list are unchanged.
\<close>

theorem reset_effect:
  "start_time (reset s) = None \<and> pause_elapsed (reset s) = 0 \<and>
   get_elapsed_ms (reset s) now = Inr 0 \<and> is_running (reset s) = False \<and>
   state_of (reset s) = Stopped \<and> current_subtitle (reset s) = None \<and>
   offset_ms (reset s) = offset_ms s \<and> subtitles (reset s) = subtitles s"
  by (simp add: reset_def get_elapsed_ms_def state_of_def)

text \<open>
  C10: \<open>start\<close> on a running engine and \<open>pause\<close> on an engine that is not running
  return normally with the state unchanged; so a second \<open>start\<close> in a row does what the
  first did and leaves its state, and a second \<open>pause\<close> after one that returned changes
  nothing.
\<close>

theorem start_pause_guards:
  "(is_running s \<longrightarrow> start s now = (None, s)) \<and>
   (\<not> is_running s \<longrightarrow> pause s now = (None, s)) \<and>
   start (snd (start s a)) b = start s a \<and>
   (fst (pause s a) = None \<longrightarrow> pause (snd (pause s a)) b = pause s a)"
  by (auto simp: start_def pause_def split: option.splits sum.splits)

theorem start_pause_guards_witness:
  "is_running running_100 \<and> start running_100 107 = (None, running_100) \<and>
   \<not> is_running paused_3 \<and> pause paused_3 107 = (None, paused_3) \<and>
   fst (pause running_100 109) = None \<and>
   pause (snd (pause running_100 109)) 110 = pause running_100 109"
proof -
  have r: "is_running running_100" by (simp add: running_100_eq)
  have p: "\<not> is_running paused_3" by (simp add: paused_3_eq)
  have f: "fst (pause running_100 109) = None"
    by (simp add: running_100_eq engine_eval rd_values)
  show ?thesis
    using start_pause_guards[of running_100 107] start_pause_guards[of paused_3 107]
      start_pause_guards[of running_100 0 109 110] r p f
    by simp
qed

lemma subtitles_exec: "subtitles (exec s c) = subtitles s"
  by (cases c) (simp_all add: start_def pause_def toggle_def reset_def adjust_offset_def
      set_offset_def set_playback_time_def seek_to_def Let_def split: option.split sum.split)

lemma subtitles_foldl_exec: "subtitles (foldl exec s cs) = subtitles s"
  by (induction cs arbitrary: s) (simp_all add: subtitles_exec)

text \<open>
  C6: the cues of every parse result are sorted by start time, whatever the order of the
  blocks, and the cue list of an engine built from it stays that list under every
  sequence of engine calls.
\<close>

theorem parse_output_sorted:
  "(\<exists>cs. parse_content content = Inr cs \<and> sorted (map start_ms cs)) \<and>
   (parse_srt_file read_as encoding = Inr cs \<longrightarrow>
      sorted (map start_ms cs) \<and> subtitles (foldl exec (init cs) cmds) = cs)"
proof -
  have a: "\<exists>cs. parse_content content = Inr cs \<and> sorted (map start_ms cs)" for content
    by (simp add: parse_content_filter)
  have "sorted (map start_ms cs)" if "parse_srt_file read_as encoding = Inr cs"
    using that by (auto simp: parse_srt_file_def parse_content_filter split: option.splits)
  moreover have "subtitles (foldl exec (init cs) cmds) = cs"
    by (simp add: subtitles_foldl_exec init_def)
  ultimately show ?thesis using a by blast
qed

theorem parse_output_sorted_witness:
  "parse_srt_file (latin1_only reordered_srt) ''utf-8''
     = Inr [\<lparr>index = 1, start_ms = 1000, end_ms = 4000, sub_text = ''Hello''\<rparr>,
            \<lparr>index = 2, start_ms = 5500, end_ms = 8200, sub_text = ''Second''\<rparr>] \<and>
   sorted (map start_ms
     [\<lparr>index = 1, start_ms = 1000, end_ms = 4000, sub_text = ''Hello''\<rparr>,
      \<lparr>index = 2, start_ms = 5500, end_ms = 8200, sub_text = ''Second''\<rparr>]) \<and>
   subtitles (foldl exec
     (init [\<lparr>index = 1, start_ms = 1000, end_ms = 4000, sub_text = ''Hello''\<rparr>,
            \<lparr>index = 2, start_ms = 5500, end_ms = 8200, sub_text = ''Second''\<rparr>])
     [Start 0, AdjustOffset 100, Pause 7, Reset, SetPlaybackTime 9000 8])
   = [\<lparr>index = 1, start_ms = 1000, end_ms = 4000, sub_text = ''Hello''\<rparr>,
      \<lparr>index = 2, start_ms = 5500, end_ms = 8200, sub_text = ''Second''\<rparr>]"
proof -
  have p: "parse_srt_file (latin1_only reordered_srt) ''utf-8''
     = Inr [\<lparr>index = 1, start_ms = 1000, end_ms = 4000, sub_text = ''Hello''\<rparr>,
            \<lparr>index = 2, start_ms = 5500, end_ms = 8200, sub_text = ''Second''\<rparr>]"
    by (simp add: parse_srt_file_def latin1_only_def parse_reordered)
  show ?thesis
    using parse_output_sorted[of reordered_srt "latin1_only reordered_srt" "''utf-8''"
        "[\<lparr>index = 1, start_ms = 1000, end_ms = 4000, sub_text = ''Hello''\<rparr>,
          \<lparr>index = 2, start_ms = 5500, end_ms = 8200, sub_text = ''Second''\<rparr>]"
        "[Start 0, AdjustOffset 100, Pause 7, Reset, SetPlaybackTime 9000 8]"] p
    by simp
qed

end
